theory Spec2Isabelle
  imports Complex_Main "HOL-Library.AList" "HOL-Library.List_Lexorder"
begin

section \<open>Transport messages (stream-interface/src/messages.ts)\<close>

text \<open>
  A \<open>Uint8Array\<close> is a list of byte values. \<open>SignatureWithKey\<close> comes from the crypto
  package; only the pair of signature bytes and signer key matters here.
\<close>

type_synonym bytes = "nat list"

record SignatureWithKey =
  signature :: bytes
  publicKey_sig :: bytes

text \<open>
  \<open>MessageHeader\<close>: the fields \<open>_id\<close>, \<open>_timestamp\<close>, \<open>_expires\<close> are read through the
  getters \<open>id\<close>, \<open>timetamp\<close>, \<open>expires\<close>. The two \<open>u64\<close> fields hold bigints.
  \<open>signatures\<close> is \<open>Signatures | undefined\<close>, the class \<open>Signatures\<close> wrapping one array.
\<close>

record MessageHeader =
  id_hdr :: bytes
  timestamp :: nat
  expires :: nat
  origin :: "string list option"
  to :: "string list"
  signatures :: "SignatureWithKey list option"

text \<open>
  The abstract class \<open>Message\<close>: every subclass has a header, and the base class keeps the
  memo field \<open>_verified\<close> (\<open>None\<close> while it is still \<open>undefined\<close>). Subclasses extend the
  record, so the functions on \<open>'a Message_scheme\<close> below are inherited by them.
\<close>

record Message =
  header :: MessageHeader
  verified :: "bool option"

record ACK = Message +
  messageIdToAcknowledge :: bytes
  seenCounter :: nat

text \<open>
  \<open>MessageHeader.verify\<close>: \<open>this.expires >= +new Date()\<close>. The current time is the
  argument \<open>now\<close> (milliseconds).
\<close>

definition verify_hdr :: "int \<Rightarrow> MessageHeader \<Rightarrow> bool" where
  "verify_hdr now h = (int (expires h) \<ge> now)"

text \<open>
  The bytes a signature is made over and checked against: \<open>sign\<close> and \<open>verifyMultiSig\<close>
  both clear \<open>header.to\<close> and \<open>header.signatures\<close> and then call \<open>serialize\<close>. The borsh
  serializer is the parameter \<open>ser\<close>.
\<close>

definition signedBytes :: "('a Message_scheme \<Rightarrow> bytes) \<Rightarrow> 'a Message_scheme \<Rightarrow> bytes" where
  "signedBytes ser obj = ser (obj\<lparr>header := (header obj)\<lparr>to := [], signatures := None\<rparr>\<rparr>)"

text \<open>
  \<open>sign\<close>, statement by statement; \<open>signer\<close> is the callback that produces a
  \<open>SignatureWithKey\<close> for the bytes it is handed, and \<open>sign_trace\<close> also returns those bytes.
\<close>

definition sign_trace ::
  "('a Message_scheme \<Rightarrow> bytes) \<Rightarrow> (bytes \<Rightarrow> SignatureWithKey) \<Rightarrow> 'a Message_scheme
     \<Rightarrow> bytes \<times> 'a Message_scheme" where
  "sign_trace ser signer obj =
     (let to0 = to (header obj);
          obj1 = obj\<lparr>header := (header obj)\<lparr>to := []\<rparr>\<rparr>;
          signatures0 = signatures (header obj1);
          obj2 = obj1\<lparr>header := (header obj1)\<lparr>signatures := None\<rparr>\<rparr>;
          bs = ser obj2;
          sg = signer bs;
          obj3 = obj2\<lparr>header := (header obj2)\<lparr>signatures :=
                   Some (case signatures0 of Some ss \<Rightarrow> ss @ [sg] | None \<Rightarrow> [sg])\<rparr>\<rparr>;
          obj4 = obj3\<lparr>header := (header obj3)\<lparr>to := to0\<rparr>\<rparr>
      in (bs, obj4))"

definition sign ::
  "('a Message_scheme \<Rightarrow> bytes) \<Rightarrow> (bytes \<Rightarrow> SignatureWithKey) \<Rightarrow> 'a Message_scheme
     \<Rightarrow> 'a Message_scheme" where
  "sign ser signer obj = snd (sign_trace ser signer obj)"

text \<open>
  \<open>verifyMultiSig\<close>: the result, the bytes that were checked (\<open>None\<close> on the early
  return) and the message as the function leaves it. \<open>vfy\<close> is the crypto package's
  \<open>verify(signature, bytes)\<close>; the \<open>for\<close> loop returns false at the first signature that
  does not verify.
\<close>

definition verifyMultiSig_trace ::
  "('a Message_scheme \<Rightarrow> bytes) \<Rightarrow> (SignatureWithKey \<Rightarrow> bytes \<Rightarrow> bool) \<Rightarrow> 'a Message_scheme
     \<Rightarrow> bool \<Rightarrow> bool \<times> bytes option \<times> 'a Message_scheme" where
  "verifyMultiSig_trace ser vfy message expectSignatures =
     (let signatures0 = signatures (header message) in
      case signatures0 of
        None \<Rightarrow> (\<not> expectSignatures, None, message)
      | Some ss \<Rightarrow>
          if length ss = 0 then (\<not> expectSignatures, None, message)
          else
            let to0 = to (header message);
                m1 = message\<lparr>header := (header message)\<lparr>to := []\<rparr>\<rparr>;
                m2 = m1\<lparr>header := (header m1)\<lparr>signatures := None\<rparr>\<rparr>;
                bs = ser m2;
                m3 = m2\<lparr>header := (header m2)\<lparr>to := to0\<rparr>\<rparr>;
                m4 = m3\<lparr>header := (header m3)\<lparr>signatures := signatures0\<rparr>\<rparr>
            in (list_all (\<lambda>sg. vfy sg bs) ss, Some bs, m4))"

definition verifyMultiSig ::
  "('a Message_scheme \<Rightarrow> bytes) \<Rightarrow> (SignatureWithKey \<Rightarrow> bytes \<Rightarrow> bool) \<Rightarrow> 'a Message_scheme
     \<Rightarrow> bool \<Rightarrow> bool" where
  "verifyMultiSig ser vfy message expectSignatures =
     fst (verifyMultiSig_trace ser vfy message expectSignatures)"

text \<open>
  \<open>Message.verify\<close>: the memo \<open>_verified\<close> is returned when it is set; otherwise the
  conjunction is computed (\<open>&&\<close> does not call \<open>verifyMultiSig\<close> when the header check
  fails) and stored. The result is returned with the message as the call leaves it.
\<close>

definition verify_msg ::
  "int \<Rightarrow> ('a Message_scheme \<Rightarrow> bytes) \<Rightarrow> (SignatureWithKey \<Rightarrow> bytes \<Rightarrow> bool)
     \<Rightarrow> 'a Message_scheme \<Rightarrow> bool \<Rightarrow> bool \<times> 'a Message_scheme" where
  "verify_msg now ser vfy m expectSignatures =
     (case verified m of
        Some v \<Rightarrow> (v, m)
      | None \<Rightarrow>
          if verify_hdr now (header m)
          then (case verifyMultiSig_trace ser vfy m expectSignatures of
                  (r, _, m') \<Rightarrow> (r, m'\<lparr>verified := Some r\<rparr>))
          else (False, m\<lparr>verified := Some False\<rparr>))"

text \<open>
  \<open>ACK.sign\<close> and \<open>ACK.verify\<close>: the counter is saved, set to 0, the inherited method
  runs, and the counter is written back.
\<close>

definition sign_ACK ::
  "(ACK \<Rightarrow> bytes) \<Rightarrow> (bytes \<Rightarrow> SignatureWithKey) \<Rightarrow> ACK \<Rightarrow> ACK" where
  "sign_ACK ser signer this =
     (let seenCounter0 = seenCounter this;
          this1 = this\<lparr>seenCounter := 0\<rparr>;
          this2 = sign ser signer this1
      in this2\<lparr>seenCounter := seenCounter0\<rparr>)"

definition verify_ACK ::
  "int \<Rightarrow> (ACK \<Rightarrow> bytes) \<Rightarrow> (SignatureWithKey \<Rightarrow> bytes \<Rightarrow> bool) \<Rightarrow> ACK \<Rightarrow> bool
     \<Rightarrow> bool \<times> ACK" where
  "verify_ACK now ser vfy this expectSignatures =
     (let seenCounter0 = seenCounter this;
          this1 = this\<lparr>seenCounter := 0\<rparr>;
          (verified0, this2) = verify_msg now ser vfy this1 expectSignatures
      in (verified0, this2\<lparr>seenCounter := seenCounter0\<rparr>))"


section \<open>Shared log (programs/data/shared-log/src/index.ts)\<close>

text \<open>
  A \<open>PublicSignKey\<close> is its key bytes (\<open>equals\<close> compares them); \<open>hashcode()\<close> is the
  parameter \<open>hc\<close> of the functions below. JavaScript numbers that hold fractions (factor,
  offset, cursor) are real numbers and the arithmetic on them is exact, except for the
  running total of \<open>_modifyReplicators\<close>, whose rounding is a parameter; times are
  integers (milliseconds). \<open>role.ts\<close> and \<open>replication.ts\<close> are not among the sources:
  a \<open>Replicator\<close> is what \<open>index.ts\<close> reads of it, \<open>factor\<close> and \<open>timestamp\<close>.
\<close>

type_synonym PublicSignKey = bytes

record Replicator =
  factor :: real
  timestamp_r :: int

datatype Role = Observer | ReplicatorRole Replicator

record ReplicatorRect =
  publicKey :: PublicSignKey
  offset :: real
  role :: Replicator

text \<open>
  The delivery modes as \<open>index.ts\<close> constructs them: \<open>{ redundancy, to }\<close>, \<open>to\<close> optional.
\<close>

datatype DeliveryMode =
    SilentDelivery nat "string list option"
  | AcknowledgeDelivery nat "string list option"
  | SeekDelivery nat "string list option"

datatype 'e TransportMessage = ExchangeHeadsMessage "'e list"

text \<open>
  The fields of \<open>SharedLog\<close> that the functions below read or write. \<open>node_identity\<close> is
  \<open>this.node.identity.publicKey\<close>; \<open>sortedPeersCache\<close> is the \<open>yallist\<close> from head to tail,
  \<open>None\<close> when the field is \<open>undefined\<close>; \<open>sent\<close> records the calls of \<open>this.rpc.send\<close>,
  oldest first; \<open>log\<close> is the \<open>Log\<close> of \<open>@peerbit/log\<close>.
\<close>

record ('e, 'l) SharedLog =
  closed :: bool
  node_identity :: PublicSignKey
  sortedPeersCache :: "ReplicatorRect list option"
  totalParticipation :: real
  openTime :: int
  sent :: "('e TransportMessage \<times> DeliveryMode) list"
  log :: 'l

definition WAIT_FOR_ROLE_MATURITY :: int where
  "WAIT_FOR_ROLE_MATURITY = 5000"

definition MAX_SAFE_INTEGER :: real where
  "MAX_SAFE_INTEGER = 9007199254740991"

text \<open>The remainder operator \<open>%\<close> on numbers: the quotient is truncated towards zero.\<close>

definition rem_js :: "real \<Rightarrow> real \<Rightarrow> real" where
  "rem_js x y = x - y * of_int (if x / y \<ge> 0 then \<lfloor>x / y\<rfloor> else \<lceil>x / y\<rceil>)"

text \<open>\<open>Set.add\<close> on a set of strings, which iterates in insertion order.\<close>

definition set_add :: "string \<Rightarrow> string list \<Rightarrow> string list" where
  "set_add x xs = (if x \<in> set xs then xs else xs @ [x])"

text \<open>
  \<open>collectNodesAroundPoint\<close>, called with the default \<open>done\<close> (never true) and
  \<open>onMatured\<close> (no effect), as \<open>findLeadersFromUniformNumber\<close> does. The loop state is
  \<open>(collector, diffs, matured)\<close>.
\<close>

definition isMatured :: "int \<Rightarrow> int \<Rightarrow> Replicator \<Rightarrow> bool" where
  "isMatured time roleAge r = (time - timestamp_r r > roleAge)"

definition visitNode ::
  "(PublicSignKey \<Rightarrow> string) \<Rightarrow> int \<Rightarrow> int \<Rightarrow> real \<Rightarrow> real \<Rightarrow> ReplicatorRect
     \<Rightarrow> string list \<times> (real \<times> ReplicatorRect) list \<times> nat
     \<Rightarrow> string list \<times> (real \<times> ReplicatorRect) list \<times> nat" where
  "visitNode hc time roleAge width point node st =
     (case st of (collector, diffs', matured) \<Rightarrow>
        let start = rem_js (offset node) width;
            absDelta = \<bar>start - point\<bar>;
            diff = min absDelta (width - absDelta)
        in if diff < factor (role node) / 2 + 1 / 100000
           then (set_add (hc (publicKey node)) collector, diffs',
                 if isMatured time roleAge (role node) then matured + 1 else matured)
           else (collector,
                 diffs' @ [(if factor (role node) > 0 then diff / factor (role node)
                           else MAX_SAFE_INTEGER, node)],
                 matured))"

text \<open>
  The \<open>while\<close> loop: \<open>nodes\<close> is the ring from \<open>currentNode\<close> on, in the order
  \<open>currentNode.next || peers.head\<close> walks it. After a node is visited the walk moves on; it
  stops when the next node carries the start node's key, which is the case at the latest
  when the walk has wrapped around to the start node (the empty rest).
\<close>

fun walkNodes ::
  "(PublicSignKey \<Rightarrow> string) \<Rightarrow> int \<Rightarrow> int \<Rightarrow> real \<Rightarrow> real \<Rightarrow> ReplicatorRect
     \<Rightarrow> ReplicatorRect list
     \<Rightarrow> string list \<times> (real \<times> ReplicatorRect) list \<times> nat
     \<Rightarrow> string list \<times> (real \<times> ReplicatorRect) list \<times> nat" where
  "walkNodes hc time roleAge width point startNode [] st = st"
| "walkNodes hc time roleAge width point startNode (currentNode # rest) st =
     (let st' = visitNode hc time roleAge width point currentNode st
      in case rest of
           [] \<Rightarrow> st'
         | nxt # _ \<Rightarrow>
             if publicKey startNode = publicKey nxt then st'
             else walkNodes hc time roleAge width point startNode rest st')"

text \<open>
  The fallback after the loop, entered when no visited node was mature: the remaining
  nodes by ascending relative distance, until one of them is mature.
\<close>

fun addUntilMatured ::
  "(PublicSignKey \<Rightarrow> string) \<Rightarrow> int \<Rightarrow> int \<Rightarrow> (real \<times> ReplicatorRect) list \<Rightarrow> string list
     \<Rightarrow> string list" where
  "addUntilMatured hc time roleAge [] collector = collector"
| "addUntilMatured hc time roleAge (node # rest) collector =
     (let collector' = set_add (hc (publicKey (snd node))) collector
      in if isMatured time roleAge (role (snd node)) then collector'
         else addUntilMatured hc time roleAge rest collector')"

definition collectNodesAroundPoint ::
  "(PublicSignKey \<Rightarrow> string) \<Rightarrow> int \<Rightarrow> int \<Rightarrow> ReplicatorRect list \<Rightarrow> real \<Rightarrow> string list
     \<Rightarrow> real \<Rightarrow> string list" where
  "collectNodesAroundPoint hc time roleAge nodes width collector point =
     (case nodes of
        [] \<Rightarrow> collector
      | startNode # _ \<Rightarrow>
          (case walkNodes hc time roleAge width point startNode nodes (collector, [], 0) of
             (collector', diffs', matured) \<Rightarrow>
               if matured = 0
               then addUntilMatured hc time roleAge (sort_key fst diffs') collector'
               else collector'))"

text \<open>
  \<open>findLeadersFromUniformNumber\<close>; \<open>now\<close> is what \<open>+new Date()\<close> returns during the call,
  \<open>roleAge\<close> is \<open>options?.roleAge\<close>, and \<open>roleAgeAt\<close> is the value of the local \<open>roleAge\<close>.
\<close>

fun leadersLoop ::
  "(PublicSignKey \<Rightarrow> string) \<Rightarrow> int \<Rightarrow> int \<Rightarrow> ReplicatorRect list \<Rightarrow> real \<Rightarrow> nat \<Rightarrow> nat list
     \<Rightarrow> string list \<Rightarrow> string list" where
  "leadersLoop hc t roleAge peers cursor numberOfLeaders [] leaders = leaders"
| "leadersLoop hc t roleAge peers cursor numberOfLeaders (i # is) leaders =
     (let width = 1;
          point = rem_js (cursor + real i / real numberOfLeaders) 1 * width
      in leadersLoop hc t roleAge peers cursor numberOfLeaders is
           (collectNodesAroundPoint hc t roleAge peers width leaders point))"

definition roleAgeAt :: "('e, 'l) SharedLog \<Rightarrow> int \<Rightarrow> int option \<Rightarrow> int" where
  "roleAgeAt this now roleAge =
     (case roleAge of
        Some a \<Rightarrow> a
      | None \<Rightarrow> min WAIT_FOR_ROLE_MATURITY (now - openTime this))"

definition findLeadersFromUniformNumber ::
  "(PublicSignKey \<Rightarrow> string) \<Rightarrow> int \<Rightarrow> ('e, 'l) SharedLog \<Rightarrow> real \<Rightarrow> nat \<Rightarrow> int option
     \<Rightarrow> string list" where
  "findLeadersFromUniformNumber hc now this cursor numberOfLeaders roleAge =
     (case sortedPeersCache this of
        None \<Rightarrow> []
      | Some peers \<Rightarrow>
          if length peers = 0 then []
          else
            let numberOfLeaders' = min numberOfLeaders (length peers);
                t = now;
                roleAge' = roleAgeAt this now roleAge
            in leadersLoop hc t roleAge' peers cursor numberOfLeaders' [0..<numberOfLeaders'] [])"

text \<open>
  \<open>findLeaders\<close>. \<open>cursorOf\<close> stands for the three library calls that turn the subject into
  the cursor: \<open>BinaryWriter.string\<close>, \<open>sha256\<close> and \<open>hashToUniformNumber\<close>.
\<close>

definition findLeaders ::
  "(PublicSignKey \<Rightarrow> string) \<Rightarrow> (string \<Rightarrow> real) \<Rightarrow> int \<Rightarrow> ('e, 'l) SharedLog \<Rightarrow> string \<Rightarrow> nat
     \<Rightarrow> int option \<Rightarrow> string list" where
  "findLeaders hc cursorOf now this subject numberOfLeaders roleAge =
     (if closed this then [hc (node_identity this)]
      else
        let cursor = cursorOf subject
        in findLeadersFromUniformNumber hc now this cursor numberOfLeaders roleAge)"




text \<open>
  \<open>_modifyReplicators\<close>. The running total is a JavaScript number: \<open>+=\<close> and \<open>-=\<close> round
  the exact result to the number format, and \<open>rnd\<close> is that rounding (the identity for
  exact arithmetic, \<open>binary64\<close> below for IEEE 754 doubles). \<open>canReplicate\<close> is the optional
  field \<open>_canReplicate\<close>, \<open>online\<close> tells whether \<open>waitFor\<close> resolves for a key, and
  \<open>hashToUniformNumber\<close> is applied to the key bytes. The \<open>yallist\<close> is the list of its
  values from head to tail and a node is its position; \<open>yallist\<close> is a library, and its
  \<open>Node\<close> constructor links the new node between the \<open>prev\<close> and the \<open>next\<close> it is given,
  so \<open>_insertAfter\<close> puts the value behind the node, or in front of the head when there
  is no node. \<open>walk\<close> is the loop that looks for the key or for the node to insert after,
  \<open>None\<close> being the \<open>prev\<close> of the head. The result is what the call returns or the message
  of the error it throws, with the state it leaves.
\<close>

datatype Change = Added | NoChange | Updated Replicator | Removed Replicator

datatype slot = Found nat | After "nat option"

fun walk :: "PublicSignKey \<Rightarrow> real \<Rightarrow> ReplicatorRect list \<Rightarrow> nat \<Rightarrow> slot" where
  "walk pk code [] i = After None"
| "walk pk code (x # rest) i =
     (if publicKey x = pk then Found i
      else if code > offset x
           then (if rest \<noteq> [] then walk pk code rest (Suc i) else After (Some i))
           else After (if i = 0 then None else Some (i - 1)))"

definition insertAfter :: "'a list \<Rightarrow> nat option \<Rightarrow> 'a \<Rightarrow> 'a list" where
  "insertAfter self node v =
     (case node of None \<Rightarrow> v # self
      | Some j \<Rightarrow> take (Suc j) self @ v # drop (Suc j) self)"

fun findKey :: "PublicSignKey \<Rightarrow> ReplicatorRect list \<Rightarrow> nat \<Rightarrow> nat option" where
  "findKey pk [] i = None"
| "findKey pk (x # rest) i = (if publicKey x = pk then Some i else findKey pk rest (Suc i))"

definition modifyReplicators ::
  "(real \<Rightarrow> real) \<Rightarrow> (PublicSignKey \<Rightarrow> Replicator \<Rightarrow> bool) option \<Rightarrow> (PublicSignKey \<Rightarrow> bool)
     \<Rightarrow> (bytes \<Rightarrow> real) \<Rightarrow> ('e, 'l) SharedLog \<Rightarrow> Role \<Rightarrow> PublicSignKey
     \<Rightarrow> (string + Change) \<times> ('e, 'l) SharedLog" where
  "modifyReplicators rnd canReplicate online hashToUniformNumber this role0 pk =
     (if (case role0 of
            ReplicatorRole r \<Rightarrow> (case canReplicate of Some f \<Rightarrow> \<not> f pk r | None \<Rightarrow> False)
          | Observer \<Rightarrow> False)
      then (Inr NoChange, this)
      else
        case sortedPeersCache this of
          None \<Rightarrow>
            if \<not> closed this then (Inl ''Unexpected, sortedPeersCache is undefined'', this)
            else (Inr NoChange, this)
        | Some sortedPeer \<Rightarrow>
            (case (case role0 of
                     ReplicatorRole r \<Rightarrow> if factor r > 0 then Some r else None
                   | Observer \<Rightarrow> None) of
               Some r \<Rightarrow>
                 if node_identity this = pk \<or> online pk
                 then
                   let code = hashToUniformNumber pk;
                       rect = \<lparr>publicKey = pk, offset = code, role = r\<rparr>
                   in if sortedPeer = []
                      then (Inr Added,
                            this\<lparr>sortedPeersCache := Some (sortedPeer @ [rect]),
                                 totalParticipation := rnd (totalParticipation this + factor r)\<rparr>)
                      else
                        (case walk pk code sortedPeer 0 of
                           Found i \<Rightarrow>
                             let prev = sortedPeer ! i
                             in (Inr (Updated (role prev)),
                                 this\<lparr>sortedPeersCache := Some (sortedPeer[i := rect]),
                                      totalParticipation :=
                                        rnd (rnd (totalParticipation this + factor r)
                                             - factor (role prev))\<rparr>)
                         | After prev \<Rightarrow>
                             if \<not> (case prev of
                                      Some j \<Rightarrow> Suc j < length sortedPeer
                                                 \<and> publicKey (sortedPeer ! Suc j) = pk
                                    | None \<Rightarrow> False)
                             then (Inr Added,
                                   this\<lparr>totalParticipation :=
                                          rnd (totalParticipation this + factor r),
                                        sortedPeersCache := Some (insertAfter sortedPeer prev rect)\<rparr>)
                             else (Inl ''Unexpected'', this))
                 else (Inr NoChange, this)
             | None \<Rightarrow>
                 (case findKey pk sortedPeer 0 of
                    Some i \<Rightarrow>
                      (Inr (Removed (role (sortedPeer ! i))),
                       this\<lparr>sortedPeersCache := Some (take i sortedPeer @ drop (Suc i) sortedPeer),
                            totalParticipation :=
                              rnd (totalParticipation this - factor (role (sortedPeer ! i)))\<rparr>)
                  | None \<Rightarrow> (Inr NoChange, this))))"

text \<open>
  The rounding of IEEE 754 binary64 (round to nearest, ties to even): \<open>exponent x\<close> is the
  binary exponent of a positive \<open>x\<close>, not below that of the subnormal numbers, and the
  result is the multiple of the unit in the last place that is nearest to \<open>x\<close>. Numbers
  beyond the largest double do not occur below.
\<close>

definition roundHalfEven :: "real \<Rightarrow> int" where
  "roundHalfEven x = (let f = \<lfloor>x\<rfloor>; d = x - of_int f
                      in if d < 1/2 then f else if 1/2 < d then f + 1
                         else if even f then f else f + 1)"

fun scaleUp :: "nat \<Rightarrow> real \<Rightarrow> nat" where
  "scaleUp 0 x = 0"
| "scaleUp (Suc n) x = (if x < 1 then Suc (scaleUp n (2 * x)) else 0)"

fun scaleDown :: "nat \<Rightarrow> real \<Rightarrow> nat" where
  "scaleDown 0 x = 0"
| "scaleDown (Suc n) x = (if 2 \<le> x then Suc (scaleDown n (x / 2)) else 0)"

definition exponent :: "real \<Rightarrow> int" where
  "exponent x = (if x < 1 then - int (scaleUp 1022 x) else int (scaleDown 1023 x))"

definition binary64 :: "real \<Rightarrow> real" where
  "binary64 x =
     (if x = 0 then 0
      else let e = exponent \<bar>x\<bar> - 52;
               u = (if 0 \<le> e then 2 ^ nat e else 1 / 2 ^ nat (- e))
           in of_int (roundHalfEven (x / u)) * u)"

text \<open>
  The additions and subtractions that a call can perform on the state \<open>this\<close> for the role
  \<open>role0\<close> are exact under \<open>rnd\<close>.
\<close>

definition exact_arith :: "(real \<Rightarrow> real) \<Rightarrow> ('e, 'l) SharedLog \<Rightarrow> Role \<Rightarrow> bool" where
  "exact_arith rnd this role0 =
     (let t = totalParticipation this;
          ps = (case sortedPeersCache this of Some ps \<Rightarrow> ps | None \<Rightarrow> [])
      in (case role0 of
            ReplicatorRole r \<Rightarrow>
              rnd (t + factor r) = t + factor r
              \<and> list_all (\<lambda>p. rnd (t + factor r - factor (role p)) = t + factor r - factor (role p)) ps
          | Observer \<Rightarrow> True)
         \<and> list_all (\<lambda>p. rnd (t - factor (role p)) = t - factor (role p)) ps)"

definition factors :: "ReplicatorRect list \<Rightarrow> real" where
  "factors ps = sum_list (map (\<lambda>p. factor (role p)) ps)"

section \<open>The log (class \<open>Log\<close>, carried in stream-interface/src/messages.ts) and its entries\<close>

text \<open>
  \<open>lamport-clock.ts\<close> is not among the sources. A clock is the pair the log code reads:
  \<open>id\<close> (the creator's public key bytes) and \<open>time\<close>.
\<close>

record LamportClock =
  id_clock :: bytes
  time :: int

text \<open>
  Modelled from the spec: \<open>LamportClock.compare\<close>, which is missing from the sources. The
  spec orders entries by Lamport time with a tiebreak on the clock id bytes;
  \<open>Entry.compare\<close> in \<open>entry.ts\<close> calls the result a distance, the difference of the times.
\<close>

definition Clock_compare :: "LamportClock \<Rightarrow> LamportClock \<Rightarrow> int" where
  "Clock_compare a b =
     (let dist = time a - time b
      in if dist = 0 \<and> id_clock a \<noteq> id_clock b
         then (if id_clock a < id_clock b then - 1 else 1)
         else dist)"

text \<open>
  An \<open>Entry\<close> (ipfs-log-entry/src/entry.ts) as the log reads it: \<open>hash\<close>, \<open>next\<close>, \<open>refs\<close>,
  the decrypted \<open>clock\<close>, and of its metadata the log id (\<open>metadata.idDecrypted\<close>), the
  identity and the signature. The payload is kept as the data given to \<open>append\<close>; its
  encoding and encryption do not enter the functions below.
\<close>

record Entry =
  hash :: string
  "next" :: "string list"
  refs :: "string list"
  clock :: LamportClock
  idDecrypted :: string
  identity_e :: bytes
  signature_e :: bytes
  payload :: string

datatype log_error = AccessError | Error string

text \<open>
  A JavaScript object used as a dictionary is an association list in insertion order:
  \<open>o[k]\<close> is \<open>map_of o k\<close>, \<open>o[k] = v\<close> is \<open>AList.update k v o\<close> (in place when the key exists,
  appended otherwise), \<open>Object.keys\<close> is \<open>map fst\<close> and \<open>Object.values\<close> is \<open>map snd\<close>. (Keys
  that look like array indices would be listed first by JavaScript; hashes do not.)
\<close>

type_synonym 'v obj = "(string \<times> 'v) list"

definition Object_assign :: "'v obj \<Rightarrow> 'v obj \<Rightarrow> 'v obj" where
  "Object_assign target source = foldl (\<lambda>t kv. AList.update (fst kv) (snd kv) t) target source"

definition uniqueEntriesReducer :: "Entry obj \<Rightarrow> Entry \<Rightarrow> Entry obj" where
  "uniqueEntriesReducer res acc = AList.update (hash acc) acc res"

definition maxClockTimeReducer :: "int \<Rightarrow> Entry \<Rightarrow> int" where
  "maxClockTimeReducer res acc = max res (time (clock acc))"

text \<open>
  \<open>Array.prototype.sort\<close> with a comparator: a stable sort, here by insertion. (For a
  comparator that is not a consistent order the result of the JavaScript sort is some
  permutation that the engine chooses.)
\<close>

fun insort_js :: "('a \<Rightarrow> 'a \<Rightarrow> int) \<Rightarrow> 'a \<Rightarrow> 'a list \<Rightarrow> 'a list" where
  "insort_js cmp x [] = [x]"
| "insort_js cmp x (y # ys) = (if cmp x y < 0 then x # y # ys else y # insort_js cmp x ys)"

definition sort_js :: "('a \<Rightarrow> 'a \<Rightarrow> int) \<Rightarrow> 'a list \<Rightarrow> 'a list" where
  "sort_js cmp xs = foldl (\<lambda>acc x. insort_js cmp x acc) [] xs"

text \<open>
  The \<open>Log\<close>. The collaborators it holds are function-valued fields: \<open>sortFn\<close> is
  \<open>_sortFn\<close>; \<open>storage\<close> is what writing an entry to \<open>_storage\<close> returns, its multihash;
  \<open>access\<close> is \<open>_access.canAppend\<close> on a payload and an identity; \<open>provider_sign\<close> and
  \<open>provider_verify\<close> are \<open>_identity.provider.sign\<close> on the data to sign of an entry and
  \<open>Entry.verify\<close>. \<open>entryIndex\<close> is the object inside the \<open>EntryIndex\<close> (\<open>get\<close>, \<open>set\<close>,
  \<open>add\<close> and \<open>length\<close> read and write it). \<open>encryption\<close> tells whether \<open>_encryption\<close> is set.
\<close>

record RecycleOptions =
  maxOplogLength :: "int option"
  cutOplogToLength :: "int option"

record Log =
  sortFn :: "Entry \<Rightarrow> Entry \<Rightarrow> int"
  storage :: "Entry \<Rightarrow> string"
  id_log :: string
  access :: "string \<Rightarrow> bytes \<Rightarrow> bool"
  identity :: bytes
  provider_sign :: "Entry \<Rightarrow> bytes"
  provider_verify :: "Entry \<Rightarrow> bool"
  entryIndex :: "Entry obj"
  headsIndex :: "Entry obj"
  nextsIndex :: "string obj"
  length_log :: int
  clock_log :: LamportClock
  recycle :: RecycleOptions
  encryption :: bool

text \<open>The getter \<open>heads\<close>: \<open>Object.values(this._headsIndex).sort(this._sortFn).reverse()\<close>.\<close>

definition heads :: "Log \<Rightarrow> Entry list" where
  "heads this = rev (sort_js (sortFn this) (map snd (headsIndex this)))"

text \<open>\<open>Log.findHeads\<close>: \<open>items\<close> maps every hash in a \<open>next\<close> to the hash of an entry naming it.\<close>

definition findHeads :: "Entry list \<Rightarrow> Entry list" where
  "findHeads entries =
     (let items = foldl (\<lambda>res entry. foldl (\<lambda>r e. AList.update e (hash entry) r) res (next entry))
                    [] entries;
          exists = (\<lambda>e. map_of items (hash e) = None);
          compareIds = (\<lambda>a b. Clock_compare (clock a) (clock b))
      in sort_js compareIds (filter exists entries))"

text \<open>
  \<open>Log.difference(a, b)\<close>. The loop state is the stack of hashes, the keys of \<open>traversed\<close>
  and the result \<open>res\<close>.
\<close>

definition pushToStack :: "Log \<Rightarrow> string list \<times> string list \<Rightarrow> string \<Rightarrow> string list \<times> string list" where
  "pushToStack b st h =
     (case st of (stack, traversed) \<Rightarrow>
        if h \<notin> set traversed \<and> map_of (entryIndex b) h = None
        then (stack @ [h], h # traversed)
        else (stack, traversed))"

lemma pushToStack_pair:
  "pushToStack b (stack, traversed) h =
     (if h \<notin> set traversed \<and> map_of (entryIndex b) h = None
      then (stack @ [h], h # traversed) else (stack, traversed))"
  by (simp add: pushToStack_def)

definition hashUniverse :: "Log \<Rightarrow> string set" where
  "hashUniverse a = (\<Union>e \<in> snd ` set (entryIndex a). set (next e @ refs e))"

lemma pushToStack_measure:
  assumes "finite U" and "set hs \<subseteq> U"
    and "foldl (pushToStack b) (st, tr) hs = (st', tr')"
  shows "card (U - set tr') + length st' = card (U - set tr) + length st"
  using assms(2,3)
proof (induction hs arbitrary: st tr)
  case Nil
  then show ?case by simp
next
  case (Cons h hs)
  show ?case
  proof (cases "h \<notin> set tr \<and> map_of (entryIndex b) h = None")
    case True
    with Cons.prems have f: "foldl (pushToStack b) (st @ [h], h # tr) hs = (st', tr')"
      by (simp add: pushToStack_pair)
    have "h \<in> U - set tr" using True Cons.prems by simp
    then have "card (U - set tr) = Suc (card (U - set tr - {h}))"
      using assms(1) card.remove [of "U - set tr" h] by simp
    moreover have "U - set (h # tr) = U - set tr - {h}" by auto
    ultimately show ?thesis
      using Cons.IH [OF _ f] Cons.prems by simp
  next
    case False
    with Cons.prems have "foldl (pushToStack b) (st, tr) hs = (st', tr')"
      by (auto simp add: pushToStack_pair)
    with Cons.IH Cons.prems show ?thesis by simp
  qed
qed

lemma difference_measure_step:
  assumes "map_of (entryIndex a) h = Some entry"
    and "(x, y) = foldl (pushToStack b)
                    (foldl (pushToStack b) (stack', hash entry # traversed) (next entry))
                    (refs entry)"
  shows "card (hashUniverse a - set y) + length x
           < Suc (card (hashUniverse a - set traversed) + length stack')"
proof -
  have fin: "finite (hashUniverse a)"
    by (simp add: hashUniverse_def)
  have "(h, entry) \<in> set (entryIndex a)"
    using assms(1) by (simp add: map_of_SomeD)
  then have sub: "set (next entry @ refs entry) \<subseteq> hashUniverse a"
    by (force simp add: hashUniverse_def)
  have f: "foldl (pushToStack b) (stack', hash entry # traversed) (next entry @ refs entry) = (x, y)"
    using assms(2) by simp
  have "card (hashUniverse a - set (hash entry # traversed))
          \<le> card (hashUniverse a - set traversed)"
    using fin by (intro card_mono) auto
  with pushToStack_measure [OF fin sub f] show ?thesis by simp
qed

function difference_loop :: "Log \<Rightarrow> Log \<Rightarrow> string list \<Rightarrow> string list \<Rightarrow> Entry obj \<Rightarrow> Entry obj" where
  "difference_loop a b stack traversed res =
     (case stack of
        [] \<Rightarrow> res
      | h # stack' \<Rightarrow>
          (case map_of (entryIndex a) h of
             None \<Rightarrow> difference_loop a b stack' traversed res
           | Some entry \<Rightarrow>
               if map_of (entryIndex b) h = None \<and> idDecrypted entry = id_log b
               then (case foldl (pushToStack b) (stack', hash entry # traversed)
                            (next entry @ refs entry) of
                       (stack'', traversed'') \<Rightarrow>
                         difference_loop a b stack'' traversed''
                           (AList.update (hash entry) entry res))
               else difference_loop a b stack' traversed res))"
  by pat_completeness auto
termination
  apply (relation "measure (\<lambda>(a, b, stack, traversed, res).
                   card (hashUniverse a - set traversed) + length stack)")
    apply simp_all
  apply (rule difference_measure_step, assumption+)
  done

declare difference_loop.simps [simp del]

definition difference :: "Log \<Rightarrow> Log \<Rightarrow> Entry obj" where
  "difference a b = difference_loop a b (map fst (headsIndex a)) [] []"

text \<open>
  \<open>traverse\<close>. \<open>getEntry\<close> is the lookup in the entry index and \<open>isDefined\<close> drops the hashes
  it does not find. The loop state is the stack, the keys of \<open>traversed\<close>, the result and
  the count. An \<open>endHash\<close> that is set must also be truthy (not the empty string).
\<close>

definition addToStack :: "Log \<Rightarrow> Entry list \<times> string list \<Rightarrow> Entry \<Rightarrow> Entry list \<times> string list" where
  "addToStack this st entry =
     (case st of (stack, traversed) \<Rightarrow>
        if hash entry \<in> set traversed then (stack, traversed)
        else (rev (sort_js (sortFn this) (entry # stack)), hash entry # traversed))"

lemma addToStack_pair:
  "addToStack this (stack, traversed) entry =
     (if hash entry \<in> set traversed then (stack, traversed)
      else (rev (sort_js (sortFn this) (entry # stack)), hash entry # traversed))"
  by (simp add: addToStack_def)

lemma length_insort_js [simp]: "length (insort_js cmp x ys) = Suc (length ys)"
  by (induction ys) simp_all

lemma length_foldl_insort_js:
  "length (foldl (\<lambda>acc x. insort_js cmp x acc) acc xs) = length acc + length xs"
  by (induction xs arbitrary: acc) simp_all

lemma length_sort_js [simp]: "length (sort_js cmp xs) = length xs"
  by (simp add: sort_js_def length_foldl_insort_js)

lemma addToStack_measure:
  assumes "finite U" and "hash ` set ds \<subseteq> U"
    and "foldl (addToStack this) (st, tr) ds = (st', tr')"
  shows "card (U - set tr') + length st' = card (U - set tr) + length st"
  using assms(2,3)
proof (induction ds arbitrary: st tr)
  case Nil
  then show ?case by simp
next
  case (Cons d ds)
  show ?case
  proof (cases "hash d \<in> set tr")
    case True
    with Cons.prems have "foldl (addToStack this) (st, tr) ds = (st', tr')"
      by (simp add: addToStack_pair)
    with Cons.IH Cons.prems show ?thesis by simp
  next
    case False
    with Cons.prems
    have f: "foldl (addToStack this) (rev (sort_js (sortFn this) (d # st)), hash d # tr) ds = (st', tr')"
      by (simp add: addToStack_pair)
    have "hash d \<in> U - set tr" using False Cons.prems by simp
    then have "card (U - set tr) = Suc (card (U - set tr - {hash d}))"
      using assms(1) card.remove [of "U - set tr" "hash d"] by simp
    moreover have "U - set (hash d # tr) = U - set tr - {hash d}" by auto
    ultimately show ?thesis
      using Cons.IH [OF _ f] Cons.prems by simp
  qed
qed

lemma set_map_filter_lookup:
  "set (List.map_filter (map_of al) ks) \<subseteq> snd ` set al"
proof (induction ks)
  case Nil
  then show ?case by simp
next
  case (Cons k ks)
  then show ?case
    by (cases "map_of al k") (auto dest: map_of_SomeD intro: rev_image_eqI)
qed

lemma traverse_measure_step:
  assumes "(x, y) = foldl (addToStack this) (stack', hash entry # traversed)
                      (List.map_filter (map_of (entryIndex this)) (next entry))"
  shows "card (hash ` snd ` set (entryIndex this) - set y) + length x
           < Suc (card (hash ` snd ` set (entryIndex this) - set traversed) + length stack')"
proof -
  let ?U = "hash ` snd ` set (entryIndex this)"
  have fin: "finite ?U" by simp
  have sub: "hash ` set (List.map_filter (map_of (entryIndex this)) (next entry)) \<subseteq> ?U"
    using set_map_filter_lookup [of "entryIndex this" "next entry"] by auto
  have "card (?U - set (hash entry # traversed)) \<le> card (?U - set traversed)"
    by (intro card_mono) auto
  with addToStack_measure [OF fin sub assms [symmetric]] show ?thesis by simp
qed

function traverse_loop ::
  "Log \<Rightarrow> int \<Rightarrow> string option \<Rightarrow> Entry list \<Rightarrow> string list \<Rightarrow> Entry obj \<Rightarrow> int \<Rightarrow> Entry obj" where
  "traverse_loop this amount endHash stack traversed result count =
     (case stack of
        [] \<Rightarrow> result
      | entry # stack' \<Rightarrow>
          if \<not> (count < amount \<or> amount < 0) then result
          else if (case endHash of Some eh \<Rightarrow> eh \<noteq> [] \<and> eh = hash entry | None \<Rightarrow> False)
          then AList.update (hash entry) entry result
          else (case foldl (addToStack this) (stack', hash entry # traversed)
                       (List.map_filter (map_of (entryIndex this)) (next entry)) of
                  (stack'', traversed'') \<Rightarrow>
                    traverse_loop this amount endHash stack'' traversed''
                      (AList.update (hash entry) entry result) (count + 1)))"
  by pat_completeness auto
termination
  apply (relation "measure (\<lambda>(this, amount, endHash, stack, traversed, result, count).
                   card (hash ` snd ` set (entryIndex this) - set traversed) + length stack)")
   apply simp_all
  apply (rule traverse_measure_step, assumption)
  done

declare traverse_loop.simps [simp del]

definition traverse :: "Log \<Rightarrow> Entry list \<Rightarrow> int \<Rightarrow> string option \<Rightarrow> Entry obj" where
  "traverse this rootEntries amount endHash =
     traverse_loop this amount endHash (rev (sort_js (sortFn this) rootEntries)) [] [] 0"

text \<open>The getter \<open>values\<close>: \<open>Object.values(this.traverse(this.heads)).reverse()\<close>.\<close>

definition values_log :: "Log \<Rightarrow> Entry list" where
  "values_log this = rev (map snd (traverse this (heads this) (- 1) None))"

text \<open>
  \<open>Array.prototype.slice(start)\<close>: a negative start counts from the end, and the start is
  clamped to the array.
\<close>

definition slice_js :: "'a list \<Rightarrow> int \<Rightarrow> 'a list" where
  "slice_js xs start =
     (if start < 0 then drop (nat (max (int (length xs) + start) 0)) xs
      else drop (nat start) xs)"

definition cutLog :: "Log \<Rightarrow> int \<Rightarrow> Log" where
  "cutLog this sz =
     (let tmp = slice_js (values_log this) (- sz);
          index = foldl uniqueEntriesReducer [] tmp
      in this\<lparr>entryIndex := index,
              headsIndex := foldl uniqueEntriesReducer [] (findHeads tmp),
              length_log := int (length index)\<rparr>)"

text \<open>
  \<open>Entry.create\<close> (entry.ts), for a log that passes \<open>logId\<close>, \<open>next\<close>, \<open>clock\<close>, \<open>refs\<close> and
  \<open>assertAllowed\<close>: the entry is built without metadata and hash, the access check runs on
  its payload and the identity, the identity provider signs the data to sign, the metadata
  is attached, and the hash is what the store returns for the entry without hash.
\<close>

definition Entry_create ::
  "(Entry \<Rightarrow> string) \<Rightarrow> (Entry \<Rightarrow> bytes) \<Rightarrow> bytes \<Rightarrow> string \<Rightarrow> string \<Rightarrow> string list
     \<Rightarrow> LamportClock \<Rightarrow> string list \<Rightarrow> (string \<Rightarrow> bytes \<Rightarrow> bool) \<Rightarrow> log_error + Entry" where
  "Entry_create ipfs signFn ident logId0 data nexts clk refs0 assertAllowed =
     (let entry = \<lparr>hash = [], next = nexts, refs = refs0, clock = clk, idDecrypted = [],
                   identity_e = [], signature_e = [], payload = data\<rparr>
      in if \<not> assertAllowed data ident then Inl AccessError
         else
           let sg = signFn entry;
               entry1 = entry\<lparr>idDecrypted := logId0, identity_e := ident, signature_e := sg\<rparr>
           in Inr (entry1\<lparr>hash := ipfs (entry1\<lparr>hash := []\<rparr>)\<rparr>))"

text \<open>
  \<open>append\<close>. \<open>getEveryPow2\<close> walks \<open>i = 1, 2, 4, ...\<close> while \<open>i <= maxDistance\<close>; the index
  \<open>min(i - 1, all.length - 1)\<close> is inside \<open>all\<close> there, because \<open>maxDistance\<close> is at most
  \<open>all.length\<close>. \<open>references\<close> is a set of entries in insertion order. The options carry
  the pointer count and whether each receiver key is given. When \<open>append\<close> throws, the
  clock has already been advanced: the error comes with the log as it is then.

  Clock times are JavaScript numbers that hold integers, and \<open>Math.max(...) + 1\<close> is an
  addition of such numbers: \<open>number_plus_one x\<close> is \<open>x + 1\<close> as IEEE 754 doubles compute it
  for an integer \<open>x\<close> that is not negative (the maximum starts from 0). Below \<open>2^53\<close> the sum
  is exact. From \<open>2^53\<close> to \<open>2^54\<close> the numbers are the even integers, \<open>x + 1\<close> lies midway
  between \<open>x\<close> and \<open>x + 2\<close>, and the tie goes to the one with the even significand: \<open>x\<close>
  when \<open>x\<close> is a multiple of 4 and \<open>x + 2\<close> otherwise. From \<open>2^54\<close> on the sum rounds to \<open>x\<close>.
\<close>

definition number_plus_one :: "int \<Rightarrow> int" where
  "number_plus_one x =
     (if x < 2 ^ 53 then x + 1
      else if x < 2 ^ 54 \<and> x mod 4 = 2 then x + 2
      else x)"

function pow2Indices :: "nat \<Rightarrow> int \<Rightarrow> nat list" where
  "pow2Indices i maxDistance =
     (if 0 < i \<and> int i \<le> maxDistance then i # pow2Indices (i * 2) maxDistance else [])"
  by pat_completeness auto
termination
  by (relation "measure (\<lambda>(i, maxDistance). nat (maxDistance + 1 - int i))") auto

declare pow2Indices.simps [simp del]

definition add_entry :: "Entry \<Rightarrow> Entry list \<Rightarrow> Entry list" where
  "add_entry e es = (if e \<in> set es then es else es @ [e])"

definition getEveryPow2 :: "Entry list \<Rightarrow> int \<Rightarrow> Entry list" where
  "getEveryPow2 all maxDistance =
     foldl (\<lambda>entries i.
              case drop (min (i - 1) (length all - 1)) all of
                e # _ \<Rightarrow> add_entry e entries
              | [] \<Rightarrow> entries)
       [] (pow2Indices 1 maxDistance)"

record AppendOptions =
  pointerCount :: int
  pin :: bool
  recieverPayload :: bool
  recieverIdentity :: bool
  recieverClock :: bool

definition append :: "Log \<Rightarrow> string \<Rightarrow> AppendOptions \<Rightarrow> (log_error \<times> Log) + (Entry \<times> Log)" where
  "append this data options =
     (let newTime = number_plus_one
                      (max (time (clock_log this)) (foldl maxClockTimeReducer 0 (heads this)));
          this1 = this\<lparr>clock_log := \<lparr>id_clock = id_clock (clock_log this), time = newTime\<rparr>\<rparr>;
          all = map snd (traverse this1 (heads this1)
                           (max (pointerCount options) (int (length (heads this1)))) None);
          references = getEveryPow2 all (min (pointerCount options) (int (length all)));
          references' = (if int (length all) < pointerCount options \<and> all \<noteq> []
                         then add_entry (last all) references else references);
          nexts = map fst (foldl uniqueEntriesReducer [] (rev (heads this1)));
          refs0 = filter (\<lambda>e. e \<notin> set nexts) (map hash references')
      in if (recieverIdentity options \<or> recieverPayload options \<or> recieverClock options)
            \<and> \<not> encryption this1
         then Inl (Error ''Message is intended to be encrypted but no encryption methods are provided for the log'', this1)
         else
           case Entry_create (storage this1) (provider_sign this1) (identity this1) (id_log this1)
                  data nexts (clock_log this1) refs0 (access this1) of
             Inl err \<Rightarrow> Inl (err, this1)
           | Inr entry \<Rightarrow>
               let this2 = this1\<lparr>entryIndex := AList.update (hash entry) entry (entryIndex this1)\<rparr>;
                   this3 = this2\<lparr>nextsIndex :=
                             foldl (\<lambda>n e. AList.update e (hash entry) n) (nextsIndex this2) nexts\<rparr>;
                   this4 = this3\<lparr>headsIndex := [(hash entry, entry)]\<rparr>;
                   this5 = this4\<lparr>length_log := length_log this4 + 1\<rparr>;
                   this6 = (case maxOplogLength (recycle this5) of
                              None \<Rightarrow> this5
                            | Some m \<Rightarrow>
                                if length_log this5 > m
                                then cutLog this5 (case cutOplogToLength (recycle this5) of
                                                     Some c \<Rightarrow> c | None \<Rightarrow> 0)
                                else this5)
               in Inr (entry, this6))"

text \<open>
  \<open>join\<close>. \<open>permitted\<close> and \<open>verify\<close> run on every new entry before anything is written,
  and the first entry that fails makes \<open>join\<close> throw; a log with another id is ignored.
  The two filters on the merged heads test truthiness: \<open>find\<close> returns the hash it found,
  and the nexts index holds hashes, so an empty string counts as absent.
\<close>

fun checkEntries :: "Log \<Rightarrow> Entry list \<Rightarrow> log_error option" where
  "checkEntries this [] = None"
| "checkEntries this (e # es) =
     (if \<not> access this (payload e) (identity_e e) then Some AccessError
      else if \<not> provider_verify this e then Some (Error ''Could not validate signature'')
      else checkEntries this es)"

definition addToNextsIndex :: "Log \<Rightarrow> Entry \<Rightarrow> Log" where
  "addToNextsIndex this e =
     (let this1 = (if map_of (entryIndex this) (hash e) = None
                   then this\<lparr>length_log := length_log this + 1\<rparr> else this)
      in this1\<lparr>nextsIndex := foldl (\<lambda>n a. AList.update a (hash e) n) (nextsIndex this1) (next e)\<rparr>)"

definition join :: "Log \<Rightarrow> Log \<Rightarrow> int \<Rightarrow> log_error + Log" where
  "join this log0 sz =
     (if id_log this \<noteq> id_log log0 then Inr this
      else
        let newItems = difference log0 this;
            entriesToJoin = map snd newItems
        in case checkEntries this entriesToJoin of
             Some err \<Rightarrow> Inl err
           | None \<Rightarrow>
               let this1 = foldl addToNextsIndex this (map snd newItems);
                   this2 = this1\<lparr>entryIndex := Object_assign (entryIndex this1) newItems\<rparr>;
                   nextsFromNewItems = concat (map next (map snd newItems));
                   notReferencedByNewItems =
                     (\<lambda>e. \<not> (case find (\<lambda>a. a = hash e) nextsFromNewItems of
                                Some a \<Rightarrow> a \<noteq> [] | None \<Rightarrow> False));
                   notInCurrentNexts =
                     (\<lambda>e. \<not> (case map_of (nextsIndex this2) (hash e) of
                                Some v \<Rightarrow> v \<noteq> [] | None \<Rightarrow> False));
                   mergedHeads =
                     foldl uniqueEntriesReducer []
                       (filter notInCurrentNexts
                          (filter notReferencedByNewItems
                             (findHeads (map snd (Object_assign
                                (Object_assign [] (headsIndex this2)) (headsIndex log0))))));
                   this3 = this2\<lparr>headsIndex := mergedHeads\<rparr>;
                   this4 = (if sz > - 1 then cutLog this3 sz else this3);
                   maxClock = foldl maxClockTimeReducer 0 (map snd (headsIndex this4))
               in Inr (this4\<lparr>clock_log := \<lparr>id_clock = id_clock (clock_log this4),
                                             time = max (time (clock_log this4)) maxClock\<rparr>\<rparr>))"

text \<open>
  The constructor. The store, the identity with its provider, the access controller and
  the sort function are given (the defaults for the last two are not among the sources);
  \<open>randomId\<close> is the id that \<open>randomId()\<close> would produce. An array given for \<open>heads\<close> is
  taken as it is, also when it is empty.
\<close>

record LogOptions =
  logId :: "string option"
  entries_o :: "Entry list option"
  heads_o :: "Entry list option"
  clock_o :: "LamportClock option"
  recycle_o :: "RecycleOptions option"
  encryption_o :: bool

definition Log_new ::
  "(Entry \<Rightarrow> string) \<Rightarrow> bytes \<Rightarrow> (Entry \<Rightarrow> bytes) \<Rightarrow> (Entry \<Rightarrow> bool) \<Rightarrow> (string \<Rightarrow> bytes \<Rightarrow> bool)
     \<Rightarrow> (Entry \<Rightarrow> Entry \<Rightarrow> int) \<Rightarrow> string \<Rightarrow> LogOptions \<Rightarrow> Log" where
  "Log_new ipfs ident signFn vfy acc srt randomId options =
     (let uniqueEntries = foldl uniqueEntriesReducer []
                            (case entries_o options of Some es \<Rightarrow> es | None \<Rightarrow> []);
          entries = map snd uniqueEntries;
          heads0 = (case heads_o options of Some hs \<Rightarrow> hs | None \<Rightarrow> findHeads entries);
          headsIndex0 = foldl uniqueEntriesReducer [] heads0;
          nextsIndex0 = foldl (\<lambda>n e. foldl (\<lambda>n' a. AList.update a (hash e) n') n (next e)) [] entries;
          maxTime = max (case clock_o options of Some c \<Rightarrow> time c | None \<Rightarrow> 0)
                        (foldl maxClockTimeReducer 0 (rev (sort_js srt (map snd headsIndex0))));
          recycle0 = (case recycle_o options of
                        Some r \<Rightarrow> r
                      | None \<Rightarrow> \<lparr>maxOplogLength = None, cutOplogToLength = None\<rparr>)
      in \<lparr>sortFn = srt, storage = ipfs,
          id_log = (case logId options of Some i \<Rightarrow> if i = [] then randomId else i | None \<Rightarrow> randomId),
          access = acc, identity = ident, provider_sign = signFn, provider_verify = vfy,
          entryIndex = uniqueEntries, headsIndex = headsIndex0, nextsIndex = nextsIndex0,
          length_log = int (length entries),
          clock_log = \<lparr>id_clock = ident, time = maxTime\<rparr>,
          recycle = (case cutOplogToLength recycle0 of
                       None \<Rightarrow> recycle0\<lparr>cutOplogToLength := maxOplogLength recycle0\<rparr>
                     | Some c \<Rightarrow> recycle0),
          encryption = encryption_o options\<rparr>)"


section \<open>Well-formed logs\<close>

text \<open>
  \<open>heads_exact\<close> is the property of the heads index as the specification words it: the
  heads index holds exactly the entries of the log whose hash is in the \<open>next\<close> of no other
  entry of the log.
\<close>

definition heads_exact :: "Log \<Rightarrow> bool" where
  "heads_exact L \<longleftrightarrow>
     set (headsIndex L) =
       set (filter (\<lambda>(h, e). list_all (\<lambda>(h', e'). e' = e \<or> hash e \<notin> set (next e')) (entryIndex L))
              (entryIndex L))"

text \<open>
  The block store is content addressed: \<open>S\<close> lists, for every hash in use, the entry stored
  under it, and no hash is the empty string.
\<close>

definition store_ok :: "Entry obj \<Rightarrow> bool" where
  "store_ok S = list_all (\<lambda>(h, e). h \<noteq> []) S"

text \<open>
  \<open>log_ok S L\<close>: every entry of \<open>L\<close> is indexed under its hash, is the entry the store \<open>S\<close>
  holds for that hash, and carries the id of the log; every \<open>next\<close> of an entry is in the
  log and has no larger clock time (the log is closed under \<open>next\<close>); no entry is its own
  ancestor (\<open>parents L\<close> relates a hash in a \<open>next\<close> to the hash of the entry that names it);
  the heads index holds the entries of the log that the nexts index does not know; the
  nexts index knows exactly the hashes that occur in a \<open>next\<close>, with non-empty values; the
  length counts the entries; and no recycle limit is configured.
\<close>

definition parents :: "Log \<Rightarrow> (string \<times> string) set" where
  "parents L = {(p, h). \<exists>e. (h, e) \<in> set (entryIndex L) \<and> p \<in> set (next e)}"

definition referenced :: "Log \<Rightarrow> string list" where
  "referenced L = concat (map (\<lambda>(h, e). next e) (entryIndex L))"

definition log_ok :: "Entry obj \<Rightarrow> Log \<Rightarrow> bool" where
  "log_ok S L \<longleftrightarrow>
     distinct (map fst (entryIndex L)) \<and> distinct (map fst (headsIndex L))
     \<and> list_all (\<lambda>(h, e). hash e = h \<and> h \<noteq> [] \<and> map_of S h = Some e \<and> idDecrypted e = id_log L
          \<and> list_all (\<lambda>p. case map_of (entryIndex L) p of
                             Some q \<Rightarrow> time (clock q) \<le> time (clock e) | None \<Rightarrow> False) (next e))
         (entryIndex L)
     \<and> acyclic (parents L)
     \<and> set (headsIndex L) = set (filter (\<lambda>(h, e). map_of (nextsIndex L) h = None) (entryIndex L))
     \<and> set (map fst (nextsIndex L)) = set (referenced L)
     \<and> list_all (\<lambda>(a, v). v \<noteq> []) (nextsIndex L)
     \<and> length_log L = int (length (entryIndex L))
     \<and> maxOplogLength (recycle L) = None"

text \<open>
  The logs that arise from the empty log by \<open>append\<close> and by \<open>join\<close> without a size, over
  a content-addressed store: the constructor is called without entries and heads and
  without a recycle limit, every appended entry is stored under its hash, and a failed
  \<open>append\<close> leaves the log it has reached.
\<close>

inductive built :: "Entry obj \<Rightarrow> Log \<Rightarrow> bool" for S :: "Entry obj" where
  built_new:
    "store_ok S \<Longrightarrow> entries_o options \<in> {None, Some []} \<Longrightarrow> heads_o options = None
     \<Longrightarrow> recycle_o options \<in> {None, Some \<lparr>maxOplogLength = None, cutOplogToLength = None\<rparr>}
     \<Longrightarrow> built S (Log_new ipfs ident signFn vfy acc srt randomId options)"
| built_append:
    "built S L \<Longrightarrow> append L data options = Inr (e, L') \<Longrightarrow> map_of S (hash e) = Some e
     \<Longrightarrow> built S L'"
| built_append_failed:
    "built S L \<Longrightarrow> append L data options = Inl (err, L') \<Longrightarrow> built S L'"
| built_join:
    "built S L \<Longrightarrow> built S A \<Longrightarrow> join L A (- 1) = Inr L' \<Longrightarrow> built S L'"

text \<open>
  The invariant of the loop of \<open>difference\<close>: what has been collected is in \<open>a\<close> and not
  in \<open>b\<close>; every \<open>next\<close> of a collected entry is in \<open>b\<close>, collected, or waiting on the
  stack; and a hash that was traversed is collected, in \<open>b\<close>, or names no entry of \<open>a\<close>.
\<close>

definition diff_inv :: "Log \<Rightarrow> Log \<Rightarrow> string list \<Rightarrow> string list \<Rightarrow> Entry obj \<Rightarrow> bool" where
  "diff_inv a b stack traversed res \<longleftrightarrow>
     distinct (map fst res)
     \<and> (\<forall>(h, e) \<in> set res. (h, e) \<in> set (entryIndex a) \<and> map_of (entryIndex b) h = None)
     \<and> (\<forall>(h, e) \<in> set res. \<forall>p \<in> set (next e).
           map_of (entryIndex b) p \<noteq> None \<or> p \<in> fst ` set res \<or> p \<in> set stack)
     \<and> (\<forall>p \<in> set traversed.
           (p \<in> fst ` set res \<or> p \<in> set stack \<or> map_of (entryIndex a) p = None)
           \<and> map_of (entryIndex b) p = None)
     \<and> (\<forall>h \<in> fst ` set (headsIndex a).
           map_of (entryIndex b) h \<noteq> None \<or> h \<in> fst ` set res \<or> h \<in> set stack)"

text \<open>The \<open>refs\<close> that \<open>append\<close> hands to \<open>Entry.create\<close>.\<close>

definition append_refs :: "Log \<Rightarrow> AppendOptions \<Rightarrow> string list" where
  "append_refs this options =
     (let newTime = number_plus_one
                      (max (time (clock_log this)) (foldl maxClockTimeReducer 0 (heads this)));
          this1 = this\<lparr>clock_log := \<lparr>id_clock = id_clock (clock_log this), time = newTime\<rparr>\<rparr>;
          all = map snd (traverse this1 (heads this1)
                           (max (pointerCount options) (int (length (heads this1)))) None);
          references = getEveryPow2 all (min (pointerCount options) (int (length all)));
          references' = (if int (length all) < pointerCount options \<and> all \<noteq> []
                         then add_entry (last all) references else references);
          nexts = map fst (foldl uniqueEntriesReducer [] (rev (heads this1)))
      in filter (\<lambda>e. e \<notin> set nexts) (map hash references'))"

text \<open>The largest clock time of the heads index, as \<open>join\<close> computes it.\<close>

definition headsMax :: "Log \<Rightarrow> int" where
  "headsMax L = foldl maxClockTimeReducer 0 (map snd (headsIndex L))"


section \<open>Concrete values for evaluating the definitions\<close>

definition ser0 :: "Message \<Rightarrow> bytes" where
  "ser0 m = id_hdr (header m)"

definition vfy0 :: "SignatureWithKey \<Rightarrow> bytes \<Rightarrow> bool" where
  "vfy0 sg bs = (signature sg = bs)"

definition msg0 :: Message where
  "msg0 = \<lparr>header = \<lparr>id_hdr = [1], timestamp = 0, expires = 10, origin = None, to = [],
             signatures = None\<rparr>, verified = None\<rparr>"

definition hc0 :: "PublicSignKey \<Rightarrow> string" where
  "hc0 k = (if k = [10] then ''A'' else if k = [20] then ''B'' else ''C'')"

definition cursorOf0 :: "string \<Rightarrow> real" where
  "cursorOf0 subject = 1 / 2"

definition ring0 :: "ReplicatorRect list" where
  "ring0 = [\<lparr>publicKey = [10], offset = 0, role = \<lparr>factor = 1/4, timestamp_r = 0\<rparr>\<rparr>,
            \<lparr>publicKey = [20], offset = 1/2, role = \<lparr>factor = 1/4, timestamp_r = 100\<rparr>\<rparr>]"

definition shared0 :: "(string, string list) SharedLog" where
  "shared0 = \<lparr>closed = False, node_identity = [10], sortedPeersCache = Some ring0,
               totalParticipation = 1/2, openTime = 0, sent = [], log = []\<rparr>"


text \<open>
  The state that \<open>open\<close> leaves (an empty peers cache and the total 0), and a call of
  \<open>_modifyReplicators\<close> in IEEE arithmetic for the local peer as a replicator of the given
  factor.
\<close>

definition init0 :: "(string, string list) SharedLog" where
  "init0 = \<lparr>closed = False, node_identity = [10], sortedPeersCache = Some [],
            totalParticipation = 0, openTime = 0, sent = [], log = []\<rparr>"

definition h0 :: "bytes \<Rightarrow> real" where
  "h0 k = 1 / 2"

definition replicator0 :: "real \<Rightarrow> Role" where
  "replicator0 f = ReplicatorRole \<lparr>factor = f, timestamp_r = 0\<rparr>"

definition call0 ::
  "(string, string list) SharedLog \<Rightarrow> real \<Rightarrow> (string + Change) \<times> (string, string list) SharedLog" where
  "call0 this f = modifyReplicators binary64 None (\<lambda>k. False) h0 this (replicator0 f) [10]"





text \<open>
  Example logs with the id X: the store hashes an entry to \<open>h-\<close> and its payload, the
  signature is fixed, everybody may write, and entries are sorted by clock and then by
  clock id. \<open>app\<close> and \<open>jn\<close> are \<open>append\<close> and \<open>join\<close> without a size, keeping the log
  when the call throws. \<open>A3\<close> is the chain a1, a2, a3 written by one identity, \<open>B2\<close> the
  chain b1, b2 written by another, \<open>Bc\<close> a log constructed from the entry a3 alone, and \<open>S0\<close>
  the store that holds these five entries.
\<close>

definition sortFn0 :: "Entry \<Rightarrow> Entry \<Rightarrow> int" where
  "sortFn0 a b = (let d = Clock_compare (clock a) (clock b)
                  in if d = 0 then (if id_clock (clock a) < id_clock (clock b) then - 1 else 1) else d)"

definition storage0 :: "Entry \<Rightarrow> string" where
  "storage0 e = ''h-'' @ payload e"

definition sign0 :: "Entry \<Rightarrow> bytes" where "sign0 e = [7]"
definition verify0 :: "Entry \<Rightarrow> bool" where "verify0 e = (signature_e e = [7])"
definition access0 :: "string \<Rightarrow> bytes \<Rightarrow> bool" where "access0 p i = True"

definition opts0 :: LogOptions where
  "opts0 = \<lparr>logId = Some ''X'', entries_o = None, heads_o = None, clock_o = None,
            recycle_o = None, encryption_o = False\<rparr>"

definition ao :: AppendOptions where
  "ao = \<lparr>pointerCount = 1, pin = False, recieverPayload = False, recieverIdentity = False, recieverClock = False\<rparr>"

definition newLog :: "bytes \<Rightarrow> Log" where
  "newLog ident = Log_new storage0 ident sign0 verify0 access0 sortFn0 ''rnd'' opts0"

definition app :: "Log \<Rightarrow> string \<Rightarrow> Log" where
  "app l d = (case append l d ao of Inr (e, l') \<Rightarrow> l' | Inl (err, l') \<Rightarrow> l')"

definition jn :: "Log \<Rightarrow> Log \<Rightarrow> Log" where
  "jn l a = (case join l a (- 1) of Inr l' \<Rightarrow> l' | Inl err \<Rightarrow> l)"

definition view :: "Log \<Rightarrow> string list \<times> string list \<times> (string \<times> string) list \<times> int \<times> int" where
  "view l = (map fst (entryIndex l), map fst (headsIndex l), nextsIndex l, length_log l, time (clock_log l))"

definition A1 :: Log where "A1 = app (newLog [1]) ''a1''"
definition A2 :: Log where "A2 = app A1 ''a2''"
definition A3 :: Log where "A3 = app A2 ''a3''"
definition B1 :: Log where "B1 = app (newLog [2]) ''b1''"
definition B2 :: Log where "B2 = app B1 ''b2''"
definition S0 :: "Entry obj" where "S0 = entryIndex (jn A3 B2)"
definition Bc :: Log where
  "Bc = Log_new storage0 [1] sign0 verify0 access0 sortFn0 ''rnd''
          (opts0\<lparr>entries_o := Some [snd (last (entryIndex A3))]\<rparr>)"

text \<open>A log constructed with the clock time \<open>2^53\<close>.\<close>

definition bigLog :: Log where
  "bigLog = Log_new storage0 [1] sign0 verify0 access0 sortFn0 ''rnd''
              (opts0\<lparr>clock_o := Some \<lparr>id_clock = [1], time = 2 ^ 53\<rparr>\<rparr>)"

definition nexts_view :: "Log \<Rightarrow> (string \<times> string list) list" where
  "nexts_view l = map (\<lambda>(h, e). (h, next e)) (entryIndex l)"


section \<open>Properties of the transport messages\<close>

lemma signedBytes_to [simp]:
  "signedBytes ser (m\<lparr>header := h\<lparr>to := t\<rparr>\<rparr>) = signedBytes ser (m\<lparr>header := h\<rparr>)"
  by (simp add: signedBytes_def)

lemma signedBytes_signatures [simp]:
  "signedBytes ser (m\<lparr>header := h\<lparr>signatures := s\<rparr>\<rparr>) = signedBytes ser (m\<lparr>header := h\<rparr>)"
  by (simp add: signedBytes_def)

lemma signedBytes_header_same [simp]:
  "signedBytes ser (m\<lparr>header := header m\<rparr>) = signedBytes ser m"
  by simp

lemma sign_trace_eq:
  "sign_trace ser signer m =
     (signedBytes ser m,
      m\<lparr>header := (header m)\<lparr>signatures :=
           Some (case signatures (header m) of Some ss \<Rightarrow> ss @ [signer (signedBytes ser m)]
                 | None \<Rightarrow> [signer (signedBytes ser m)])\<rparr>\<rparr>)"
  by (simp add: sign_trace_def signedBytes_def Let_def split: option.splits)

lemma verifyMultiSig_trace_eq:
  "verifyMultiSig_trace ser vfy m e =
     (case signatures (header m) of
        None \<Rightarrow> (\<not> e, None, m)
      | Some ss \<Rightarrow> if ss = [] then (\<not> e, None, m)
                   else (list_all (\<lambda>sg. vfy sg (signedBytes ser m)) ss, Some (signedBytes ser m), m))"
  by (simp add: verifyMultiSig_trace_def signedBytes_def Let_def split: option.splits)

lemma verify_msg_eq:
  "verify_msg now ser vfy m e =
     (case verified m of
        Some v \<Rightarrow> (v, m)
      | None \<Rightarrow>
          let r = verify_hdr now (header m) \<and> verifyMultiSig ser vfy m e
          in (r, m\<lparr>verified := Some r\<rparr>))"
  by (simp add: verify_msg_def verifyMultiSig_def verifyMultiSig_trace_eq Let_def split: option.splits)

text \<open>
  A message signed by \<open>sign\<close> passes \<open>verifyMultiSig\<close> when the crypto check accepts what the
  signer produces, and it still does after a relay has rewritten \<open>header.to\<close>.
\<close>

lemma sign_then_verifyMultiSig:
  assumes "\<And>bs. vfy (signer bs) bs" and "signatures (header m) = None"
  shows "verifyMultiSig ser vfy ((sign ser signer m)\<lparr>header := (header (sign ser signer m))\<lparr>to := t\<rparr>\<rparr>) e"
  using assms by (simp add: verifyMultiSig_def verifyMultiSig_trace_eq sign_def sign_trace_eq)


text \<open>
  C7. \<open>ACK.verify\<close> is the inherited \<open>verify\<close> run on the ACK with \<open>seenCounter\<close> set to 0,
  with the counter written back afterwards, and \<open>ACK.sign\<close> is the inherited \<open>sign\<close> run on
  the ACK with the counter at 0, with the counter written back: the signature is made and
  checked over the bytes of the ACK with the counter at 0. So \<open>ACK.verify\<close> gives the same
  result for two ACKs that differ only in \<open>seenCounter\<close>, both leave \<open>seenCounter\<close> as they
  found it, and a relay that increments the counter of a signed ACK does not change the
  result of the verification.
\<close>

theorem ack_seenCounter_not_signed:
  "verify_ACK now ser vfy a e
     = (fst (verify_msg now ser vfy (a\<lparr>seenCounter := 0\<rparr>) e),
        (snd (verify_msg now ser vfy (a\<lparr>seenCounter := 0\<rparr>) e))\<lparr>seenCounter := seenCounter a\<rparr>)
   \<and> fst (verify_ACK now ser vfy a e) = fst (verify_msg now ser vfy (a\<lparr>seenCounter := 0\<rparr>) e)
   \<and> sign_ACK ser signer a = (sign ser signer (a\<lparr>seenCounter := 0\<rparr>))\<lparr>seenCounter := seenCounter a\<rparr>
   \<and> fst (verify_ACK now ser vfy (a\<lparr>seenCounter := c\<rparr>) e) = fst (verify_ACK now ser vfy a e)
   \<and> seenCounter (snd (verify_ACK now ser vfy a e)) = seenCounter a
   \<and> seenCounter (sign_ACK ser signer a) = seenCounter a
   \<and> sign_ACK ser signer (a\<lparr>seenCounter := c\<rparr>) = (sign_ACK ser signer a)\<lparr>seenCounter := c\<rparr>
   \<and> signatures (header (sign_ACK ser signer a)) =
       Some ((case signatures (header a) of Some ss \<Rightarrow> ss | None \<Rightarrow> [])
             @ [signer (signedBytes ser (a\<lparr>seenCounter := 0\<rparr>))])
   \<and> fst (verify_ACK now ser vfy ((sign_ACK ser signer a)\<lparr>seenCounter := seenCounter a + 1\<rparr>) e)
       = fst (verify_ACK now ser vfy (sign_ACK ser signer a) e)"
  by (simp add: verify_ACK_def sign_ACK_def sign_def sign_trace_eq verify_msg_eq Let_def
        split: option.splits prod.splits)

text \<open>
  C10, as stated, fails: a message that was verified before it expired keeps its memo, and
  \<open>Message.verify\<close> returns true for it after \<open>header.expires\<close> has passed. Here \<open>msg0\<close>
  (expires at 10, no signatures, none expected) is verified at time 5 and again at time 20.
\<close>

theorem expired_message_verifies_from_memo:
  "int (expires (header (snd (verify_msg 5 ser0 vfy0 msg0 False)))) < 20
   \<and> fst (verify_msg 20 ser0 vfy0 (snd (verify_msg 5 ser0 vfy0 msg0 False)) False) = True"
  by (simp add: verify_msg_eq msg0_def verify_hdr_def verifyMultiSig_def verifyMultiSig_trace_eq)

text \<open>
  C10, amended. On a message whose memo \<open>_verified\<close> is not yet set and whose
  \<open>header.expires\<close> is earlier than the current time, \<open>Message.verify\<close> returns false
  whatever the signatures are, and stores false. Whatever the first call returns is stored
  in \<open>_verified\<close>, and every later call returns it, at any time and with any arguments.
\<close>

theorem expired_unverified_message_fails_and_memo:
  assumes "verified m = None" and "int (expires (header m)) < now"
  shows "verify_msg now ser vfy m e = (False, m\<lparr>verified := Some False\<rparr>)
     \<and> verified (snd (verify_msg now0 ser vfy m0 e)) = Some (fst (verify_msg now0 ser vfy m0 e))
     \<and> verify_msg now' ser' vfy' (snd (verify_msg now0 ser vfy m0 e)) e'
         = (fst (verify_msg now0 ser vfy m0 e), snd (verify_msg now0 ser vfy m0 e))
     \<and> verify_msg now0 ser vfy (m0\<lparr>verified := Some v\<rparr>) e = (v, m0\<lparr>verified := Some v\<rparr>)"
  using assms by (auto simp add: verify_msg_eq verify_hdr_def Let_def split: option.splits)

theorem expired_unverified_message_fails_witness:
  "verified msg0 = None \<and> int (expires (header msg0)) < 11
   \<and> verify_msg 11 ser0 vfy0 msg0 True = (False, msg0\<lparr>verified := Some False\<rparr>)"
proof -
  have a: "verified msg0 = None" and b: "int (expires (header msg0)) < 11"
    by (simp_all add: msg0_def)
  from expired_unverified_message_fails_and_memo [OF a b, of ser0 vfy0 True] a b
  show ?thesis by simp
qed


section \<open>Properties of the shared log\<close>













text \<open>
  C8. On a closed shared log \<open>findLeaders\<close> returns the list whose only element is the
  hashcode of the local peer's public key, for every subject, number of leaders and
  option, and whatever the replicator ring holds.
\<close>

theorem findLeaders_closed_returns_self:
  assumes "closed this"
  shows "findLeaders hc cursorOf now this subject numberOfLeaders roleAge = [hc (node_identity this)]
         \<and> findLeaders hc cursorOf now (this\<lparr>sortedPeersCache := peers\<rparr>) subject numberOfLeaders roleAge
             = [hc (node_identity this)]"
  using assms by (simp add: findLeaders_def)

theorem findLeaders_closed_returns_self_witness:
  "closed (shared0\<lparr>closed := True\<rparr>)
   \<and> findLeaders hc0 cursorOf0 120 (shared0\<lparr>closed := True\<rparr>) ''gid'' 2 None = [''A'']"
proof -
  have c: "closed (shared0\<lparr>closed := True\<rparr>)" by simp
  from findLeaders_closed_returns_self [OF c, of hc0 cursorOf0 120 "''gid''" 2 None] c
  show ?thesis by (simp add: shared0_def hc0_def)
qed

lemma findLeaders_log [simp]:
  "findLeaders hc cursorOf now (this\<lparr>log := l\<rparr>) subject n roleAge
     = findLeaders hc cursorOf now this subject n roleAge"
  by (simp add: findLeaders_def findLeadersFromUniformNumber_def roleAgeAt_def
      split: option.splits)









lemma walk_Found: "walk pk code xs i = Found k \<Longrightarrow> i \<le> k \<and> k - i < length xs"
proof (induction xs arbitrary: i)
  case Nil
  then show ?case by simp
next
  case (Cons x rest)
  show ?case
  proof (cases "publicKey x = pk")
    case True
    with Cons.prems show ?thesis by simp
  next
    case False
    with Cons.prems have w: "walk pk code rest (Suc i) = Found k"
      by (simp split: if_splits)
    from Cons.IH [OF w] show ?thesis by auto
  qed
qed

lemma findKey_Some: "findKey pk xs i = Some k \<Longrightarrow> i \<le> k \<and> k - i < length xs"
proof (induction xs arbitrary: i)
  case Nil
  then show ?case by simp
next
  case (Cons x rest)
  show ?case
  proof (cases "publicKey x = pk")
    case True
    with Cons.prems show ?thesis by simp
  next
    case False
    with Cons.prems have w: "findKey pk rest (Suc i) = Some k" by simp
    from Cons.IH [OF w] show ?thesis by auto
  qed
qed

lemma factors_update:
  "i < length ps \<Longrightarrow> factors (ps[i := v]) = factors ps + factor (role v) - factor (role (ps ! i))"
proof (induction ps arbitrary: i)
  case Nil
  then show ?case by simp
next
  case (Cons p ps)
  show ?case
  proof (cases i)
    case 0
    then show ?thesis by (simp add: factors_def)
  next
    case (Suc j)
    with Cons.prems have "j < length ps" by simp
    from Cons.IH [OF this] Suc show ?thesis by (simp add: factors_def)
  qed
qed

lemma factors_remove:
  assumes "i < length ps"
  shows "factors (take i ps @ drop (Suc i) ps) = factors ps - factor (role (ps ! i))"
proof -
  have "factors ps = factors (take i ps @ ps ! i # drop (Suc i) ps)"
    using id_take_nth_drop [OF assms] by simp
  then show ?thesis by (simp add: factors_def)
qed

lemma factors_insertAfter: "factors (insertAfter ps node v) = factors ps + factor (role v)"
proof (cases node)
  case None
  then show ?thesis by (simp add: insertAfter_def factors_def)
next
  case (Some j)
  have "factors ps = factors (take (Suc j) ps @ drop (Suc j) ps)" by simp
  also have "\<dots> = factors (take (Suc j) ps) + factors (drop (Suc j) ps)"
    unfolding factors_def by (simp only: map_append sum_list_append)
  finally show ?thesis
    using Some by (simp add: insertAfter_def factors_def)
qed

lemma factors_snoc: "factors (ps @ [v]) = factors ps + factor (role v)"
  by (simp add: factors_def)

text \<open>
  C9, as stated, fails: the total is kept by \<open>+=\<close> and \<open>-=\<close> on JavaScript numbers, which
  round. From the state that \<open>open\<close> leaves, the local peer is added with the factor 0.1
  (the total is 0.1, as the sum is) and then updated to the factor 0.2: the total becomes
  0.1 + 0.2 - 0.1 in IEEE arithmetic, which is 0.20000000000000004, while the only
  rectangle in the cache has the factor 0.2.
\<close>

theorem total_drifts_from_sum:
  "fst (call0 init0 (binary64 (1/10))) = Inr Added
   \<and> map (\<lambda>p. factor (role p)) (the (sortedPeersCache (snd (call0 init0 (binary64 (1/10))))))
       = [binary64 (1/10)]
   \<and> totalParticipation (snd (call0 init0 (binary64 (1/10)))) = binary64 (1/10)
   \<and> fst (call0 (snd (call0 init0 (binary64 (1/10)))) (binary64 (2/10)))
       = Inr (Updated \<lparr>factor = binary64 (1/10), timestamp_r = 0\<rparr>)
   \<and> map (\<lambda>p. factor (role p))
        (the (sortedPeersCache (snd (call0 (snd (call0 init0 (binary64 (1/10)))) (binary64 (2/10))))))
       = [binary64 (2/10)]
   \<and> binary64 (2/10) = 7205759403792794 / 36028797018963968
   \<and> totalParticipation (snd (call0 (snd (call0 init0 (binary64 (1/10)))) (binary64 (2/10))))
       = 7205759403792795 / 36028797018963968
   \<and> totalParticipation (snd (call0 (snd (call0 init0 (binary64 (1/10)))) (binary64 (2/10))))
       \<noteq> factors (the (sortedPeersCache
                    (snd (call0 (snd (call0 init0 (binary64 (1/10)))) (binary64 (2/10))))))"
  by code_simp

text \<open>
  C9, amended. Let the peers cache be defined and the total equal the sum of the factors
  in the cache, and let the additions and subtractions that a call can perform on this
  state be exact (as they all are in exact arithmetic). Then after the call, whatever it
  returns (added, updated, removed, none) or throws, the cache is defined and the total
  equals the sum of the factors in the cache.
\<close>

theorem modifyReplicators_keeps_total:
  assumes c: "sortedPeersCache this = Some peers"
    and t: "totalParticipation this = factors peers"
    and ex: "exact_arith rnd this role0"
    and m: "modifyReplicators rnd canReplicate online hashToUniformNumber this role0 pk = (res, this')"
  shows "\<exists>peers'. sortedPeersCache this' = Some peers'
           \<and> totalParticipation this' = factors peers'"
proof -
  have same: ?thesis if "this' = this"
    using that c t by simp
  have sub: "rnd (factors peers - factor (role p)) = factors peers - factor (role p)"
    if "p \<in> set peers" for p
    using ex that c t by (simp add: exact_arith_def Let_def list_all_iff)
  show ?thesis
  proof (cases "case role0 of
            ReplicatorRole r \<Rightarrow> (case canReplicate of Some f \<Rightarrow> \<not> f pk r | None \<Rightarrow> False)
          | Observer \<Rightarrow> False")
    case True
    with m show ?thesis by (intro same) (simp add: modifyReplicators_def)
  next
    case nc: False
    show ?thesis
    proof (cases "case role0 of
                     ReplicatorRole r \<Rightarrow> if factor r > 0 then Some r else None
                   | Observer \<Rightarrow> None")
      case None
      show ?thesis
      proof (cases "findKey pk peers 0")
        case None': None
        with m nc c None show ?thesis by (intro same) (simp add: modifyReplicators_def)
      next
        case (Some i)
        from findKey_Some [OF Some] have i: "i < length peers" by simp
        then have "peers ! i \<in> set peers" by simp
        from sub [OF this] m nc c None Some t factors_remove [OF i]
        show ?thesis by (auto simp: modifyReplicators_def)
      qed
    next
      case (Some r)
      then have r: "role0 = ReplicatorRole r"
        by (cases role0) (simp_all split: if_splits)
      have add: "rnd (factors peers + factor r) = factors peers + factor r"
        using ex c t r by (simp add: exact_arith_def Let_def)
      have upd: "rnd (factors peers + factor r - factor (role p))
                   = factors peers + factor r - factor (role p)" if "p \<in> set peers" for p
        using ex that c t r by (simp add: exact_arith_def Let_def list_all_iff)
      show ?thesis
      proof (cases "node_identity this = pk \<or> online pk")
        case False
        with m nc c Some show ?thesis by (intro same) (simp add: modifyReplicators_def)
      next
        case on: True
        define rect where "rect = \<lparr>publicKey = pk, offset = hashToUniformNumber pk, role = r\<rparr>"
        have fr: "factor (role rect) = factor r" by (simp add: rect_def)
        show ?thesis
        proof (cases "peers = []")
          case True
          with m nc c Some on t add show ?thesis
            by (auto simp: modifyReplicators_def Let_def factors_def)
        next
          case ne: False
          show ?thesis
          proof (cases "walk pk (hashToUniformNumber pk) peers 0")
            case (Found i)
            from walk_Found [OF Found] have i: "i < length peers" by simp
            then have "peers ! i \<in> set peers" by simp
            from upd [OF this] add m nc c Some on ne Found t
              factors_update [OF i, of rect] fr
            show ?thesis
              by (auto simp: modifyReplicators_def Let_def rect_def)
          next
            case (After prev)
            show ?thesis
            proof (cases "case prev of
                            Some j \<Rightarrow> Suc j < length peers \<and> publicKey (peers ! Suc j) = pk
                          | None \<Rightarrow> False")
              case True
              with m nc c Some on ne After show ?thesis
                by (intro same) (simp add: modifyReplicators_def Let_def)
            next
              case False
              with add m nc c Some on ne After t factors_insertAfter [of peers prev rect] fr
              show ?thesis
                by (auto simp: modifyReplicators_def Let_def rect_def)
            qed
          qed
        qed
      qed
    qed
  qed
qed

theorem modifyReplicators_keeps_total_witness:
  "sortedPeersCache (snd (call0 init0 (1/2))) = Some [\<lparr>publicKey = [10], offset = 1/2,
       role = \<lparr>factor = 1/2, timestamp_r = 0\<rparr>\<rparr>]
   \<and> (\<exists>peers'. sortedPeersCache (snd (call0 (snd (call0 init0 (1/2))) (1/4))) = Some peers'
         \<and> totalParticipation (snd (call0 (snd (call0 init0 (1/2))) (1/4))) = factors peers')"
proof -
  have c: "sortedPeersCache (snd (call0 init0 (1/2))) = Some [\<lparr>publicKey = [10], offset = 1/2,
       role = \<lparr>factor = 1/2, timestamp_r = 0\<rparr>\<rparr>]"
    by code_simp
  have t: "totalParticipation (snd (call0 init0 (1/2)))
      = factors [\<lparr>publicKey = [10], offset = 1/2, role = \<lparr>factor = 1/2, timestamp_r = 0\<rparr>\<rparr>]"
    by code_simp
  have ex: "exact_arith binary64 (snd (call0 init0 (1/2))) (replicator0 (1/4))"
    by code_simp
  have m: "modifyReplicators binary64 None (\<lambda>k. False) h0 (snd (call0 init0 (1/2)))
             (replicator0 (1/4)) [10]
           = (fst (call0 (snd (call0 init0 (1/2))) (1/4)), snd (call0 (snd (call0 init0 (1/2))) (1/4)))"
    by (simp add: call0_def)
  from modifyReplicators_keeps_total [OF c t ex m] c show ?thesis by simp
qed


section \<open>Properties of the log\<close>

subsection \<open>Objects\<close>

lemma update_fresh: "k \<notin> fst ` set al \<Longrightarrow> AList.update k v al = al @ [(k, v)]"
  by (induction al) auto

lemma Object_assign_fresh:
  "distinct (map fst s) \<Longrightarrow> fst ` set s \<inter> fst ` set t = {} \<Longrightarrow> Object_assign t s = t @ s"
proof (induction s arbitrary: t)
  case Nil
  then show ?case by (simp add: Object_assign_def)
next
  case (Cons kv s)
  have k: "fst kv \<notin> fst ` set t" using Cons.prems by auto
  have "Object_assign t (kv # s) = Object_assign (t @ [kv]) s"
    using update_fresh [OF k, of "snd kv"] by (simp add: Object_assign_def)
  also have "\<dots> = (t @ [kv]) @ s"
    using Cons.prems by (intro Cons.IH) auto
  finally show ?case by simp
qed

lemma Object_assign_Nil [simp]: "Object_assign t [] = t"
  by (simp add: Object_assign_def)

lemma Object_assign_empty: "distinct (map fst s) \<Longrightarrow> Object_assign [] s = s"
  using Object_assign_fresh [of s "[]"] by simp

lemma map_of_Object_assign:
  "distinct (map fst s) \<Longrightarrow> map_of (Object_assign t s) = map_of t ++ map_of s"
proof (induction s arbitrary: t)
  case Nil
  then show ?case by (simp add: Object_assign_def)
next
  case (Cons kv s)
  have "map_of (Object_assign t (kv # s)) = map_of (Object_assign (AList.update (fst kv) (snd kv) t) s)"
    by (simp add: Object_assign_def)
  also have "\<dots> = map_of (AList.update (fst kv) (snd kv) t) ++ map_of s"
    using Cons.prems by (intro Cons.IH) simp
  also have "\<dots> = map_of t ++ map_of (kv # s)"
  proof -
    have n: "map_of s (fst kv) = None"
      using Cons.prems by (simp add: map_of_eq_None_iff)
    show ?thesis
    proof (rule ext)
      fix x
      show "(map_of (AList.update (fst kv) (snd kv) t) ++ map_of s) x = (map_of t ++ map_of (kv # s)) x"
        using n by (cases kv) (simp add: AList.update_conv' map_add_def split: option.splits)
    qed
  qed
  finally show ?case .
qed

lemma distinct_Object_assign:
  "distinct (map fst t) \<Longrightarrow> distinct (map fst (Object_assign t s))"
  unfolding Object_assign_def
  by (induction s arbitrary: t) (simp_all add: AList.distinct_update)

lemma keys_Object_assign:
  "fst ` set (Object_assign t s) = fst ` set t \<union> fst ` set s"
  unfolding Object_assign_def
  by (induction s arbitrary: t) (auto simp: AList.dom_update)

lemma distinct_foldl_unique:
  "distinct (map fst acc) \<Longrightarrow> distinct (map fst (foldl uniqueEntriesReducer acc es))"
  by (induction es arbitrary: acc) (simp_all add: uniqueEntriesReducer_def AList.distinct_update)

lemma foldl_unique_fresh:
  "distinct (map hash es) \<Longrightarrow> hash ` set es \<inter> fst ` set acc = {}
   \<Longrightarrow> foldl uniqueEntriesReducer acc es = acc @ map (\<lambda>e. (hash e, e)) es"
proof (induction es arbitrary: acc)
  case Nil
  then show ?case by simp
next
  case (Cons e es)
  have k: "hash e \<notin> fst ` set acc" using Cons.prems by auto
  have "foldl uniqueEntriesReducer acc (e # es) = foldl uniqueEntriesReducer (acc @ [(hash e, e)]) es"
    using update_fresh [OF k, of e] by (simp add: uniqueEntriesReducer_def)
  also have "\<dots> = (acc @ [(hash e, e)]) @ map (\<lambda>e. (hash e, e)) es"
    using Cons.prems by (intro Cons.IH) auto
  finally show ?case by simp
qed

subsection \<open>Sorting\<close>

lemma set_insort_js [simp]: "set (insort_js cmp x ys) = insert x (set ys)"
  by (induction ys) auto

lemma set_foldl_insort_js:
  "set (foldl (\<lambda>acc x. insort_js cmp x acc) acc xs) = set acc \<union> set xs"
  by (induction xs arbitrary: acc) auto

lemma set_sort_js [simp]: "set (sort_js cmp xs) = set xs"
  by (simp add: sort_js_def set_foldl_insort_js)

lemma distinct_map_insort_js:
  "distinct (map f (insort_js cmp x ys)) = (f x \<notin> f ` set ys \<and> distinct (map f ys))"
  by (induction ys) auto

lemma distinct_map_foldl_insort_js:
  "distinct (map f (foldl (\<lambda>acc x. insort_js cmp x acc) acc xs)) = distinct (map f (acc @ xs))"
proof (induction xs arbitrary: acc)
  case Nil
  then show ?case by simp
next
  case (Cons x xs)
  show ?case
    by (simp add: Cons.IH distinct_map_insort_js) blast
qed

lemma distinct_map_sort_js:
  "distinct (map f (sort_js cmp xs)) = distinct (map f xs)"
  by (simp add: sort_js_def distinct_map_foldl_insort_js)

subsection \<open>The nexts index\<close>

lemma keys_foldl_update_const:
  "fst ` set (foldl (\<lambda>n a. AList.update a v n) N xs) = fst ` set N \<union> set xs"
  by (induction xs arbitrary: N) (auto simp: AList.dom_update)

lemma vals_foldl_update_const:
  "snd ` set (foldl (\<lambda>n a. AList.update a v n) N xs) \<subseteq> insert v (snd ` set N)"
proof (induction xs arbitrary: N)
  case Nil
  then show ?case by auto
next
  case (Cons x xs)
  have "snd ` set (AList.update x v N) \<subseteq> insert v (snd ` set N)"
    by (induction N) auto
  with Cons.IH [of "AList.update x v N"] show ?case by auto
qed

subsection \<open>findHeads\<close>

lemma keys_items:
  "fst ` set (foldl (\<lambda>res entry. foldl (\<lambda>r e. AList.update e (hash entry) r) res (next entry)) acc es)
     = fst ` set acc \<union> (\<Union>e \<in> set es. set (next e))"
  by (induction es arbitrary: acc) (auto simp: keys_foldl_update_const)

lemma set_findHeads:
  "set (findHeads es) = {e \<in> set es. hash e \<notin> (\<Union>x \<in> set es. set (next x))}"
  by (auto simp: findHeads_def Let_def map_of_eq_None_iff keys_items)

lemma distinct_map_findHeads:
  "distinct (map f es) \<Longrightarrow> distinct (map f (findHeads es))"
  by (simp add: findHeads_def Let_def distinct_map_sort_js distinct_map_filter)

lemma ok_lookup:
  "log_ok S L \<Longrightarrow> (map_of (entryIndex L) h = Some e) = ((h, e) \<in> set (entryIndex L))"
  by (simp add: log_ok_def)

lemma ok_entry:
  assumes "log_ok S L" and "(h, e) \<in> set (entryIndex L)"
  shows "hash e = h" and "h \<noteq> []" and "map_of S h = Some e" and "idDecrypted e = id_log L"
  using assms by (auto simp: log_ok_def list_all_iff)

lemma ok_next:
  assumes "log_ok S L" and "(h, e) \<in> set (entryIndex L)" and "p \<in> set (next e)"
  shows "\<exists>q. (p, q) \<in> set (entryIndex L) \<and> time (clock q) \<le> time (clock e)"
proof -
  have "case map_of (entryIndex L) p of Some q \<Rightarrow> time (clock q) \<le> time (clock e) | None \<Rightarrow> False"
    using assms by (auto simp: log_ok_def list_all_iff)
  then obtain q where "map_of (entryIndex L) p = Some q" "time (clock q) \<le> time (clock e)"
    by (auto split: option.splits)
  then show ?thesis using assms(1) by (auto simp: ok_lookup)
qed

lemma ok_acyclic: "log_ok S L \<Longrightarrow> acyclic (parents L)"
  by (simp add: log_ok_def)

lemma parentsI:
  "(h, e) \<in> set (entryIndex L) \<Longrightarrow> p \<in> set (next e) \<Longrightarrow> (p, h) \<in> parents L"
  unfolding parents_def by auto

lemma parentsE:
  assumes "(p, h) \<in> parents L"
  obtains e where "(h, e) \<in> set (entryIndex L)" and "p \<in> set (next e)"
  using assms unfolding parents_def by auto

lemma finite_parents: "finite (parents L)"
proof -
  have "parents L \<subseteq> (\<Union>(h, e) \<in> set (entryIndex L). set (next e)) \<times> fst ` set (entryIndex L)"
    unfolding parents_def by force
  moreover have "finite ((\<Union>(h, e) \<in> set (entryIndex L). set (next e)) \<times> fst ` set (entryIndex L))"
    by (intro finite_cartesian_product finite_UN_I finite_imageI) auto
  ultimately show ?thesis by (rule finite_subset)
qed

lemma ok_wf_parents: "log_ok S L \<Longrightarrow> wf (parents L)"
  using finite_acyclic_wf [OF finite_parents ok_acyclic] .

lemma ok_wf_children: "log_ok S L \<Longrightarrow> wf ((parents L)\<inverse>)"
  using finite_acyclic_wf_converse [OF finite_parents ok_acyclic] .

lemma ok_no_self:
  assumes "log_ok S L" and "(h, e) \<in> set (entryIndex L)"
  shows "h \<notin> set (next e)"
proof
  assume "h \<in> set (next e)"
  from parentsI [OF assms(2) this] have "(h, h) \<in> (parents L)\<^sup>+" by (rule r_into_trancl)
  with ok_acyclic [OF assms(1)] show False by (simp add: acyclic_def)
qed

lemma ok_nexts:
  assumes "log_ok S L"
  shows "(map_of (nextsIndex L) p \<noteq> None) = (\<exists>(h, e) \<in> set (entryIndex L). p \<in> set (next e))"
proof -
  have "(map_of (nextsIndex L) p \<noteq> None) = (p \<in> set (map fst (nextsIndex L)))"
    by (simp add: map_of_eq_None_iff)
  also have "\<dots> = (p \<in> set (referenced L))"
    using assms by (simp add: log_ok_def)
  also have "\<dots> = (\<exists>(h, e) \<in> set (entryIndex L). p \<in> set (next e))"
    by (auto simp: referenced_def)
  finally show ?thesis .
qed

lemma ok_heads:
  assumes "log_ok S L"
  shows "((h, e) \<in> set (headsIndex L))
           = ((h, e) \<in> set (entryIndex L) \<and> map_of (nextsIndex L) h = None)"
  using assms by (auto simp: log_ok_def)

lemma ok_compat:
  assumes "log_ok S L" and "log_ok S A"
    and "(h, e) \<in> set (entryIndex L)" and "(h, e') \<in> set (entryIndex A)"
  shows "e = e'"
  using ok_entry(3) [OF assms(1,3)] ok_entry(3) [OF assms(2,4)] by simp

lemma ok_heads_exact:
  assumes "log_ok S L"
  shows "heads_exact L"
proof -
  have "((h, e) \<in> set (entryIndex L) \<and> map_of (nextsIndex L) h = None)
          = ((h, e) \<in> set (entryIndex L)
             \<and> (\<forall>(h', e') \<in> set (entryIndex L). e' = e \<or> hash e \<notin> set (next e')))" for h e
  proof (cases "(h, e) \<in> set (entryIndex L)")
    case False
    then show ?thesis by simp
  next
    case True
    have he: "hash e = h" using ok_entry(1) [OF assms True] .
    have "(map_of (nextsIndex L) h \<noteq> None)
            = (\<exists>(h', e') \<in> set (entryIndex L). e' \<noteq> e \<and> h \<in> set (next e'))"
    proof -
      have "\<not> h \<in> set (next e)"
        using ok_no_self [OF assms True] .
      then show ?thesis using ok_nexts [OF assms, of h] by auto
    qed
    with True he show ?thesis by auto
  qed
  note key = this
  show ?thesis
    unfolding heads_exact_def
  proof (rule set_eqI)
    fix x :: "string \<times> Entry"
    obtain h e where x: "x = (h, e)" by (cases x)
    show "(x \<in> set (headsIndex L))
            = (x \<in> set (filter (\<lambda>(h, e). list_all (\<lambda>(h', e'). e' = e \<or> hash e \<notin> set (next e'))
                                  (entryIndex L)) (entryIndex L)))"
      unfolding x using key [of h e] ok_heads [OF assms, of h e]
      by (simp add: list_all_iff)
  qed
qed

lemma pushToStack_fold_conj:
  "foldl (pushToStack b) (st, tr) hs = (st', tr')
   \<Longrightarrow> set st \<subseteq> set st' \<and> set tr \<subseteq> set tr'
       \<and> (\<forall>h \<in> set hs. h \<in> set tr' \<or> map_of (entryIndex b) h \<noteq> None)
       \<and> (\<forall>h \<in> set tr' - set tr. h \<in> set st' \<and> map_of (entryIndex b) h = None)
       \<and> set st' \<subseteq> set st \<union> set hs"
proof (induction hs arbitrary: st tr)
  case Nil
  then show ?case by simp
next
  case (Cons h hs)
  define st1 where "st1 = fst (pushToStack b (st, tr) h)"
  define tr1 where "tr1 = snd (pushToStack b (st, tr) h)"
  have p: "pushToStack b (st, tr) h = (st1, tr1)" by (simp add: st1_def tr1_def)
  have s1: "set st \<subseteq> set st1" "set tr \<subseteq> set tr1" "set st1 \<subseteq> insert h (set st)"
    "h \<in> set tr1 \<or> map_of (entryIndex b) h \<noteq> None"
    "\<forall>x \<in> set tr1 - set tr. x \<in> set st1 \<and> map_of (entryIndex b) x = None"
    unfolding st1_def tr1_def by (auto simp: pushToStack_pair)
  have f: "foldl (pushToStack b) (st1, tr1) hs = (st', tr')"
    using Cons.prems by (simp only: foldl_Cons p)
  note C = Cons.IH [OF f]
  note c1 = C [THEN conjunct1]
    and c2 = C [THEN conjunct2, THEN conjunct1]
    and c3 = C [THEN conjunct2, THEN conjunct2, THEN conjunct1]
    and c4 = C [THEN conjunct2, THEN conjunct2, THEN conjunct2, THEN conjunct1]
    and c5 = C [THEN conjunct2, THEN conjunct2, THEN conjunct2, THEN conjunct2]
  have g1: "set st \<subseteq> set st'" using s1(1) c1 by (rule subset_trans)
  have g2: "set tr \<subseteq> set tr'" using s1(2) c2 by (rule subset_trans)
  have g3: "\<forall>x \<in> set (h # hs). x \<in> set tr' \<or> map_of (entryIndex b) x \<noteq> None"
    using s1(4) c2 c3 by auto
  have g4: "\<forall>x \<in> set tr' - set tr. x \<in> set st' \<and> map_of (entryIndex b) x = None"
  proof
    fix x assume x: "x \<in> set tr' - set tr"
    show "x \<in> set st' \<and> map_of (entryIndex b) x = None"
    proof (cases "x \<in> set tr1")
      case True
      with x s1(5) have "x \<in> set st1 \<and> map_of (entryIndex b) x = None" by blast
      with c1 show ?thesis by blast
    next
      case False
      with x c4 show ?thesis by blast
    qed
  qed
  have g5: "set st' \<subseteq> set st \<union> set (h # hs)"
    using c5 s1(3) by auto
  from g1 g2 g3 g4 g5 show ?case by (intro conjI)
qed

lemma pushToStack_fold:
  assumes "foldl (pushToStack b) (st, tr) hs = (st', tr')"
  shows "set st \<subseteq> set st'" and "set tr \<subseteq> set tr'"
    and "\<forall>h \<in> set hs. h \<in> set tr' \<or> map_of (entryIndex b) h \<noteq> None"
    and "\<forall>h \<in> set tr' - set tr. h \<in> set st' \<and> map_of (entryIndex b) h = None"
    and "set st' \<subseteq> set st \<union> set hs"
proof -
  note C = pushToStack_fold_conj [OF assms]
  show "set st \<subseteq> set st'" by (rule C [THEN conjunct1])
  show "set tr \<subseteq> set tr'" by (rule C [THEN conjunct2, THEN conjunct1])
  show "\<forall>h \<in> set hs. h \<in> set tr' \<or> map_of (entryIndex b) h \<noteq> None"
    by (rule C [THEN conjunct2, THEN conjunct2, THEN conjunct1])
  show "\<forall>h \<in> set tr' - set tr. h \<in> set st' \<and> map_of (entryIndex b) h = None"
    by (rule C [THEN conjunct2, THEN conjunct2, THEN conjunct2, THEN conjunct1])
  show "set st' \<subseteq> set st \<union> set hs"
    by (rule C [THEN conjunct2, THEN conjunct2, THEN conjunct2, THEN conjunct2])
qed

lemma diff_invI:
  assumes "distinct (map fst res)"
    and "\<And>h e. (h, e) \<in> set res \<Longrightarrow> (h, e) \<in> set (entryIndex a) \<and> map_of (entryIndex b) h = None"
    and "\<And>h e p. (h, e) \<in> set res \<Longrightarrow> p \<in> set (next e)
           \<Longrightarrow> map_of (entryIndex b) p \<noteq> None \<or> p \<in> fst ` set res \<or> p \<in> set stack"
    and "\<And>p. p \<in> set traversed
           \<Longrightarrow> (p \<in> fst ` set res \<or> p \<in> set stack \<or> map_of (entryIndex a) p = None)
               \<and> map_of (entryIndex b) p = None"
    and "\<And>h. h \<in> fst ` set (headsIndex a)
           \<Longrightarrow> map_of (entryIndex b) h \<noteq> None \<or> h \<in> fst ` set res \<or> h \<in> set stack"
  shows "diff_inv a b stack traversed res"
  unfolding diff_inv_def
  apply (intro conjI)
  subgoal by (rule assms(1))
  subgoal using assms(2) by auto
  subgoal using assms(3) by auto
  subgoal by (intro ballI, rule assms(4))
  subgoal by (intro ballI, rule assms(5))
  done

lemma diff_invD:
  assumes "diff_inv a b stack traversed res"
  shows "distinct (map fst res)"
    and "\<And>h e. (h, e) \<in> set res \<Longrightarrow> (h, e) \<in> set (entryIndex a)"
    and "\<And>h e. (h, e) \<in> set res \<Longrightarrow> map_of (entryIndex b) h = None"
    and "\<And>h e p. (h, e) \<in> set res \<Longrightarrow> p \<in> set (next e)
           \<Longrightarrow> map_of (entryIndex b) p \<noteq> None \<or> p \<in> fst ` set res \<or> p \<in> set stack"
    and "\<And>p. p \<in> set traversed
           \<Longrightarrow> p \<in> fst ` set res \<or> p \<in> set stack \<or> map_of (entryIndex a) p = None"
    and "\<And>p. p \<in> set traversed \<Longrightarrow> map_of (entryIndex b) p = None"
    and "\<And>h. h \<in> fst ` set (headsIndex a)
           \<Longrightarrow> map_of (entryIndex b) h \<noteq> None \<or> h \<in> fst ` set res \<or> h \<in> set stack"
proof -
  note C = assms [unfolded diff_inv_def]
  note c1 = C [THEN conjunct1]
    and c2 = C [THEN conjunct2, THEN conjunct1]
    and c3 = C [THEN conjunct2, THEN conjunct2, THEN conjunct1]
    and c4 = C [THEN conjunct2, THEN conjunct2, THEN conjunct2, THEN conjunct1]
    and c5 = C [THEN conjunct2, THEN conjunct2, THEN conjunct2, THEN conjunct2]
  show "distinct (map fst res)" by (rule c1)
  show "\<And>h e. (h, e) \<in> set res \<Longrightarrow> (h, e) \<in> set (entryIndex a)"
    using c2 by (simp add: split_beta Ball_def)
  show "\<And>h e. (h, e) \<in> set res \<Longrightarrow> map_of (entryIndex b) h = None"
    using c2 by (simp add: split_beta Ball_def)
  show "\<And>h e p. (h, e) \<in> set res \<Longrightarrow> p \<in> set (next e)
           \<Longrightarrow> map_of (entryIndex b) p \<noteq> None \<or> p \<in> fst ` set res \<or> p \<in> set stack"
    using c3 [THEN bspec] by (auto simp: split_beta)
  show "\<And>p. p \<in> set traversed
           \<Longrightarrow> p \<in> fst ` set res \<or> p \<in> set stack \<or> map_of (entryIndex a) p = None"
    using c4 [THEN bspec] by auto
  show "\<And>p. p \<in> set traversed \<Longrightarrow> map_of (entryIndex b) p = None"
    using c4 [THEN bspec] by auto
  show "\<And>h. h \<in> fst ` set (headsIndex a)
           \<Longrightarrow> map_of (entryIndex b) h \<noteq> None \<or> h \<in> fst ` set res \<or> h \<in> set stack"
    using c5 [THEN bspec] by auto
qed

lemma set_update_subset:
  "set (AList.update k v al) \<subseteq> insert (k, v) (set al)"
  by (induction al) auto

lemma set_update_mem: "(k, v) \<in> set (AList.update k v al)"
  by (induction al) auto

lemma diff_inv_skip_absent:
  assumes okA: "log_ok S a" and inv: "diff_inv a b (h # stack') tr res"
    and none: "map_of (entryIndex a) h = None"
  shows "diff_inv a b stack' tr res"
proof (rule diff_invI)
  note D = diff_invD [OF inv]
  show "distinct (map fst res)" by (rule D(1))
  show "(k, e) \<in> set (entryIndex a) \<and> map_of (entryIndex b) k = None" if "(k, e) \<in> set res" for k e
    using D(2,3) that by blast
  show "map_of (entryIndex b) p \<noteq> None \<or> p \<in> fst ` set res \<or> p \<in> set stack'"
    if ke: "(k, e) \<in> set res" and p: "p \<in> set (next e)" for k e p
  proof -
    have ea: "(k, e) \<in> set (entryIndex a)" using D(2) ke .
    from ok_next [OF okA ea p] obtain q where "(p, q) \<in> set (entryIndex a)" by blast
    then have "map_of (entryIndex a) p \<noteq> None" using okA by (simp add: ok_lookup [symmetric])
    then have "p \<noteq> h" using none by auto
    moreover have "map_of (entryIndex b) p \<noteq> None \<or> p \<in> fst ` set res \<or> p \<in> set (h # stack')"
      using D(4) [OF ke p] .
    ultimately show ?thesis by auto
  qed
  show "(p \<in> fst ` set res \<or> p \<in> set stack' \<or> map_of (entryIndex a) p = None)
           \<and> map_of (entryIndex b) p = None" if "p \<in> set tr" for p
    using D(5) [OF that] D(6) [OF that] none by auto
  show "map_of (entryIndex b) x \<noteq> None \<or> x \<in> fst ` set res \<or> x \<in> set stack'"
    if "x \<in> fst ` set (headsIndex a)" for x
  proof -
    from that obtain e where xe: "(x, e) \<in> set (headsIndex a)" by auto
    then have "(x, e) \<in> set (entryIndex a)" using ok_heads [OF okA] by simp
    then have "map_of (entryIndex a) x \<noteq> None" using okA by (simp add: ok_lookup [symmetric])
    then have "x \<noteq> h" using none by auto
    then show ?thesis using D(7) [OF that] by auto
  qed
qed

lemma diff_inv_skip_known:
  assumes inv: "diff_inv a b (h # stack') tr res"
    and known: "map_of (entryIndex b) h \<noteq> None"
  shows "diff_inv a b stack' tr res"
proof (rule diff_invI)
  note D = diff_invD [OF inv]
  show "distinct (map fst res)" by (rule D(1))
  show "(k, e) \<in> set (entryIndex a) \<and> map_of (entryIndex b) k = None" if "(k, e) \<in> set res" for k e
    using D(2,3) that by blast
  show "map_of (entryIndex b) p \<noteq> None \<or> p \<in> fst ` set res \<or> p \<in> set stack'"
    if ke: "(k, e) \<in> set res" and p: "p \<in> set (next e)" for k e p
    using D(4) [OF ke p] known by auto
  show "(p \<in> fst ` set res \<or> p \<in> set stack' \<or> map_of (entryIndex a) p = None)
           \<and> map_of (entryIndex b) p = None" if "p \<in> set tr" for p
    using D(5) [OF that] D(6) [OF that] known by auto
  show "map_of (entryIndex b) x \<noteq> None \<or> x \<in> fst ` set res \<or> x \<in> set stack'"
    if "x \<in> fst ` set (headsIndex a)" for x
    using D(7) [OF that] known by auto
qed

lemma diff_inv_process:
  assumes okA: "log_ok S a" and inv: "diff_inv a b (h # stack') tr res"
    and some: "map_of (entryIndex a) h = Some entry"
    and nb: "map_of (entryIndex b) h = None"
    and f: "foldl (pushToStack b) (stack', hash entry # tr) (next entry @ refs entry) = (st2, tr2)"
  shows "diff_inv a b st2 tr2 (AList.update (hash entry) entry res)"
proof (rule diff_invI)
  let ?res = "AList.update (hash entry) entry res"
  note D = diff_invD [OF inv]
  have ea: "(h, entry) \<in> set (entryIndex a)" using some by (rule map_of_SomeD)
  have he: "hash entry = h" using ok_entry(1) [OF okA ea] .
  note F = pushToStack_fold [OF f]
  have keys: "fst ` set ?res = insert h (fst ` set res)"
    by (simp add: AList.dom_update he)
  have sub: "set ?res \<subseteq> insert (h, entry) (set res)"
    using set_update_subset [of "hash entry" entry res] he by simp
  have closed: "map_of (entryIndex a) p \<noteq> None"
    if "(k, e) \<in> set (entryIndex a)" "p \<in> set (next e)" for k e p
  proof -
    from ok_next [OF okA that] obtain q where "(p, q) \<in> set (entryIndex a)" by blast
    then show ?thesis using okA by (simp add: ok_lookup [symmetric])
  qed
  have stack_sub: "set stack' \<subseteq> set st2" using F(1) .
  have old_pending: "p \<in> fst ` set ?res \<or> p \<in> set st2"
    if "p \<in> fst ` set res \<or> p \<in> set (h # stack')" for p
    using that keys stack_sub by auto
  have tr_cases: "p \<in> fst ` set ?res \<or> p \<in> set st2 \<or> map_of (entryIndex a) p = None"
    if p: "p \<in> set tr2" for p
  proof (cases "p \<in> set (hash entry # tr)")
    case False
    with p have "p \<in> set tr2 - set (hash entry # tr)" by simp
    with F(4) show ?thesis by auto
  next
    case True
    then consider "p = h" | "p \<in> set tr" using he by auto
    then show ?thesis
    proof cases
      case 1
      then show ?thesis using keys by simp
    next
      case 2
      from D(5) [OF 2] old_pending [of p] show ?thesis by auto
    qed
  qed
  have in_a: "(k, e) \<in> set (entryIndex a)" if "(k, e) \<in> set ?res" for k e
    using that sub ea D(2) by auto
  show "distinct (map fst ?res)"
    using D(1) by (simp add: AList.distinct_update)
  show "(k, e) \<in> set (entryIndex a) \<and> map_of (entryIndex b) k = None"
    if ke: "(k, e) \<in> set ?res" for k e
  proof (cases "(k, e) = (h, entry)")
    case True
    then show ?thesis using ea nb by simp
  next
    case False
    then have "(k, e) \<in> set res" using ke sub by auto
    then show ?thesis using D(2,3) by auto
  qed
  show "map_of (entryIndex b) p \<noteq> None \<or> p \<in> fst ` set ?res \<or> p \<in> set st2"
    if ke: "(k, e) \<in> set ?res" and p: "p \<in> set (next e)" for k e p
  proof -
    have pa: "map_of (entryIndex a) p \<noteq> None" using closed [OF in_a [OF ke] p] .
    show ?thesis
    proof (cases "(k, e) = (h, entry)")
      case True
      then have "p \<in> set (next entry @ refs entry)" using p by simp
      with F(3) have "p \<in> set tr2 \<or> map_of (entryIndex b) p \<noteq> None" by auto
      then show ?thesis using tr_cases [of p] pa by auto
    next
      case False
      then have "(k, e) \<in> set res" using ke sub by auto
      from D(4) [OF this p] old_pending [of p] show ?thesis by auto
    qed
  qed
  show "(p \<in> fst ` set ?res \<or> p \<in> set st2 \<or> map_of (entryIndex a) p = None)
           \<and> map_of (entryIndex b) p = None" if p: "p \<in> set tr2" for p
  proof -
    have "map_of (entryIndex b) p = None"
    proof (cases "p \<in> set (hash entry # tr)")
      case False
      with p have "p \<in> set tr2 - set (hash entry # tr)" by simp
      with F(4) show ?thesis by auto
    next
      case True
      then consider "p = h" | "p \<in> set tr" using he by auto
      then show ?thesis using nb D(6) by cases auto
    qed
    with tr_cases [OF p] show ?thesis by simp
  qed
  show "map_of (entryIndex b) x \<noteq> None \<or> x \<in> fst ` set ?res \<or> x \<in> set st2"
    if "x \<in> fst ` set (headsIndex a)" for x
    using D(7) [OF that] old_pending [of x] by auto
qed

lemma diff_inv_loop:
  assumes okA: "log_ok S a" and ids: "id_log a = id_log b"
    and inv: "diff_inv a b stack traversed res"
  shows "\<exists>tr. diff_inv a b [] tr (difference_loop a b stack traversed res)"
  using okA ids inv
proof (induction a b stack traversed res rule: difference_loop.induct)
  case (1 a b stack traversed res)
  note okA = "1.prems"(1) and ids = "1.prems"(2) and inv = "1.prems"(3)
  show ?case
  proof (cases stack)
    case Nil
    have "difference_loop a b stack traversed res = res"
      using Nil by (subst difference_loop.simps) simp
    then show ?thesis using inv Nil by auto
  next
    case (Cons h stack')
    show ?thesis
    proof (cases "map_of (entryIndex a) h")
      case None
      have eq: "difference_loop a b stack traversed res = difference_loop a b stack' traversed res"
        using Cons None by (subst difference_loop.simps) simp
      have "diff_inv a b stack' traversed res"
        using diff_inv_skip_absent [OF okA _ None] inv Cons by simp
      from "1.IH"(1) [OF Cons None okA ids this] show ?thesis
        unfolding eq .
    next
      case (Some entry)
      have ea: "(h, entry) \<in> set (entryIndex a)" using Some by (rule map_of_SomeD)
      have idok: "idDecrypted entry = id_log b" using ok_entry(4) [OF okA ea] ids by simp
      show ?thesis
      proof (cases "map_of (entryIndex b) h = None")
        case True
        obtain st2 tr2 where f:
          "foldl (pushToStack b) (stack', hash entry # traversed) (next entry @ refs entry) = (st2, tr2)"
          by (cases "foldl (pushToStack b) (stack', hash entry # traversed) (next entry @ refs entry)")
        have eq: "difference_loop a b stack traversed res
                    = difference_loop a b st2 tr2 (AList.update (hash entry) entry res)"
          using Cons Some True idok f by (subst difference_loop.simps) (simp del: foldl_append)
        have cond: "map_of (entryIndex b) h = None \<and> idDecrypted entry = id_log b"
          using True idok by simp
        have "diff_inv a b st2 tr2 (AList.update (hash entry) entry res)"
          using diff_inv_process [OF okA _ Some True f] inv Cons by simp
        from "1.IH"(2) [OF Cons Some cond f [symmetric] okA ids this]
        show ?thesis unfolding eq .
      next
        case False
        then obtain y where y: "map_of (entryIndex b) h = Some y" by auto
        have eq: "difference_loop a b stack traversed res = difference_loop a b stack' traversed res"
          using Cons Some y by (subst difference_loop.simps) simp
        have ncond: "\<not> (map_of (entryIndex b) h = None \<and> idDecrypted entry = id_log b)"
          using y by simp
        have "diff_inv a b stack' traversed res"
          using diff_inv_skip_known [OF _ False] inv Cons by simp
        from "1.IH"(3) [OF Cons Some ncond okA ids this] show ?thesis
          unfolding eq .
      qed
    qed
  qed
qed

text \<open>What \<open>difference\<close> returns for well-formed logs.\<close>

lemma difference_props:
  assumes okA: "log_ok S a" and ids: "id_log a = id_log b"
  shows "distinct (map fst (difference a b))"
    and "\<And>h e. (h, e) \<in> set (difference a b) \<Longrightarrow> (h, e) \<in> set (entryIndex a)"
    and "\<And>h e. (h, e) \<in> set (difference a b) \<Longrightarrow> map_of (entryIndex b) h = None"
    and "\<And>h e p. (h, e) \<in> set (difference a b) \<Longrightarrow> p \<in> set (next e)
           \<Longrightarrow> map_of (entryIndex b) p \<noteq> None \<or> p \<in> fst ` set (difference a b)"
    and "\<And>h. h \<in> fst ` set (headsIndex a)
           \<Longrightarrow> map_of (entryIndex b) h \<noteq> None \<or> h \<in> fst ` set (difference a b)"
proof -
  have init: "diff_inv a b (map fst (headsIndex a)) [] []"
    by (rule diff_invI) auto
  from diff_inv_loop [OF okA ids init] obtain tr
    where inv: "diff_inv a b [] tr (difference a b)"
    unfolding difference_def by blast
  note D = diff_invD [OF inv]
  show "distinct (map fst (difference a b))" by (rule D(1))
  show "\<And>h e. (h, e) \<in> set (difference a b) \<Longrightarrow> (h, e) \<in> set (entryIndex a)"
    by (rule D(2))
  show "\<And>h e. (h, e) \<in> set (difference a b) \<Longrightarrow> map_of (entryIndex b) h = None"
    by (rule D(3))
  show "\<And>h e p. (h, e) \<in> set (difference a b) \<Longrightarrow> p \<in> set (next e)
           \<Longrightarrow> map_of (entryIndex b) p \<noteq> None \<or> p \<in> fst ` set (difference a b)"
    using D(4) by auto
  show "\<And>h. h \<in> fst ` set (headsIndex a)
           \<Longrightarrow> map_of (entryIndex b) h \<noteq> None \<or> h \<in> fst ` set (difference a b)"
    using D(7) by auto
qed

lemma ok_key_unique:
  assumes "log_ok S L" and "(h, e) \<in> set (entryIndex L)" and "(h, e') \<in> set (entryIndex L)"
  shows "e = e'"
  using ok_compat [OF assms(1) assms(1) assms(2) assms(3)] .

lemma ok_in_keys:
  assumes "log_ok S L"
  shows "(map_of (entryIndex L) h \<noteq> None) = (h \<in> fst ` set (entryIndex L))"
  by (simp add: map_of_eq_None_iff)

text \<open>Every entry of a well-formed log is at most as late as some head.\<close>

lemma below_head:
  assumes ok: "log_ok S L" and mem: "(h, e) \<in> set (entryIndex L)"
  shows "\<exists>(k, x) \<in> set (headsIndex L). (h, k) \<in> (parents L)\<^sup>* \<and> time (clock e) \<le> time (clock x)"
proof -
  have "\<forall>e. (h, e) \<in> set (entryIndex L) \<longrightarrow>
          (\<exists>(k, x) \<in> set (headsIndex L). (h, k) \<in> (parents L)\<^sup>* \<and> time (clock e) \<le> time (clock x))"
  proof (induction h rule: wf_induct_rule [OF ok_wf_children [OF ok]])
    case (1 h)
    show ?case
    proof (intro allI impI)
      fix e assume m: "(h, e) \<in> set (entryIndex L)"
      show "\<exists>(k, x) \<in> set (headsIndex L). (h, k) \<in> (parents L)\<^sup>* \<and> time (clock e) \<le> time (clock x)"
      proof (cases "map_of (nextsIndex L) h = None")
        case True
        then have "(h, e) \<in> set (headsIndex L)"
          using ok_heads [OF ok] m by simp
        then show ?thesis by (intro bexI [of _ "(h, e)"]) simp_all
      next
        case False
        then have "\<exists>k e2. (k, e2) \<in> set (entryIndex L) \<and> h \<in> set (next e2)"
          using ok_nexts [OF ok, of h] by auto
        then obtain k e2 where e2: "(k, e2) \<in> set (entryIndex L)" "h \<in> set (next e2)"
          by (elim exE conjE)
        from ok_next [OF ok e2] obtain q
          where q: "(h, q) \<in> set (entryIndex L)" "time (clock q) \<le> time (clock e2)"
          by (elim exE conjE)
        have "q = e" using ok_key_unique [OF ok q(1) m] .
        then have le: "time (clock e) \<le> time (clock e2)" using q by simp
        have hk: "(h, k) \<in> parents L" using parentsI [OF e2] .
        then have "(k, h) \<in> (parents L)\<inverse>" by simp
        from 1 [OF this] e2(1)
        have "\<exists>(k', x) \<in> set (headsIndex L). (k, k') \<in> (parents L)\<^sup>* \<and> time (clock e2) \<le> time (clock x)"
          by simp
        then have "\<exists>k' x. (k', x) \<in> set (headsIndex L) \<and> (k, k') \<in> (parents L)\<^sup>*
                     \<and> time (clock e2) \<le> time (clock x)" by auto
        then obtain k' x where x: "(k', x) \<in> set (headsIndex L)" "(k, k') \<in> (parents L)\<^sup>*"
          "time (clock e2) \<le> time (clock x)" by (elim exE conjE)
        have "(h, k') \<in> (parents L)\<^sup>*" using hk x(2) by (rule converse_rtrancl_into_rtrancl)
        with x(1,3) le show ?thesis by (intro bexI [of _ "(k', x)"]) auto
      qed
    qed
  qed
  with mem show ?thesis by simp
qed

text \<open>For well-formed logs \<open>difference a b\<close> is exactly the part of \<open>a\<close> that \<open>b\<close> lacks.\<close>

lemma difference_complete:
  assumes okA: "log_ok S a" and okB: "log_ok S b" and ids: "id_log a = id_log b"
    and mem: "(h, e) \<in> set (entryIndex a)" and nb: "map_of (entryIndex b) h = None"
  shows "(h, e) \<in> set (difference a b)"
proof -
  note D = difference_props [OF okA ids]
  have key_in: "(h, e) \<in> set (difference a b)"
    if "h \<in> fst ` set (difference a b)" "(h, e) \<in> set (entryIndex a)" for h e
  proof -
    from that(1) have "\<exists>e'. (h, e') \<in> set (difference a b)" by auto
    then obtain e' where e': "(h, e') \<in> set (difference a b)" ..
    then have "(h, e') \<in> set (entryIndex a)" by (rule D(2))
    then have "e' = e" using ok_key_unique [OF okA _ that(2)] by simp
    with e' show ?thesis by simp
  qed
  have "\<forall>e. (h, e) \<in> set (entryIndex a) \<longrightarrow> map_of (entryIndex b) h = None
          \<longrightarrow> (h, e) \<in> set (difference a b)"
  proof (induction h rule: wf_induct_rule [OF ok_wf_children [OF okA]])
    case (1 h)
    show ?case
    proof (intro allI impI)
      fix e assume m: "(h, e) \<in> set (entryIndex a)" and n: "map_of (entryIndex b) h = None"
      show "(h, e) \<in> set (difference a b)"
      proof (cases "map_of (nextsIndex a) h = None")
        case True
        then have "(h, e) \<in> set (headsIndex a)"
          using ok_heads [OF okA] m by simp
        then have "h \<in> fst ` set (headsIndex a)" by (rule rev_image_eqI) simp
        from D(5) [OF this] n have "h \<in> fst ` set (difference a b)" by simp
        then show ?thesis using key_in m by simp
      next
        case False
        then have "\<exists>k e2. (k, e2) \<in> set (entryIndex a) \<and> h \<in> set (next e2)"
          using ok_nexts [OF okA, of h] by auto
        then obtain k e2 where e2: "(k, e2) \<in> set (entryIndex a)" "h \<in> set (next e2)"
          by (elim exE conjE)
        have "(k, h) \<in> (parents a)\<inverse>" using parentsI [OF e2] by simp
        note IH = 1 [OF this]
        have kb: "map_of (entryIndex b) k = None"
        proof (rule ccontr)
          assume "map_of (entryIndex b) k \<noteq> None"
          then obtain e2' where "map_of (entryIndex b) k = Some e2'" by auto
          then have b2: "(k, e2') \<in> set (entryIndex b)" by (rule map_of_SomeD)
          have "e2' = e2" using ok_compat [OF okB okA b2 e2(1)] .
          with b2 have "(k, e2) \<in> set (entryIndex b)" by simp
          from ok_next [OF okB this e2(2)] obtain q' where "(h, q') \<in> set (entryIndex b)"
            by (elim exE conjE)
          then have "map_of (entryIndex b) h \<noteq> None"
            using okB by (simp add: ok_lookup [symmetric])
          with n show False by simp
        qed
        have "(k, e2) \<in> set (difference a b)"
          using IH e2(1) kb by simp
        from D(4) [OF this e2(2)] n have "h \<in> fst ` set (difference a b)" by simp
        then show ?thesis using key_in m by simp
      qed
    qed
  qed
  with mem nb show ?thesis by simp
qed

lemma set_difference:
  assumes okA: "log_ok S a" and okB: "log_ok S b" and ids: "id_log a = id_log b"
  shows "set (difference a b) = {(h, e) \<in> set (entryIndex a). map_of (entryIndex b) h = None}"
proof -
  note D = difference_props [OF okA ids]
  show ?thesis
  proof (rule set_eqI)
    fix x :: "string \<times> Entry"
    obtain h e where x: "x = (h, e)" by (cases x)
    show "(x \<in> set (difference a b))
            = (x \<in> {(h, e) \<in> set (entryIndex a). map_of (entryIndex b) h = None})"
      unfolding x using D(2) [of h e] D(3) [of h e] difference_complete [OF okA okB ids, of h e]
      by auto
  qed
qed

text \<open>The loop of \<open>join\<close> over the new entries.\<close>

lemma addToNextsIndex_fields:
  "entryIndex (addToNextsIndex this e) = entryIndex this"
  "headsIndex (addToNextsIndex this e) = headsIndex this"
  "id_log (addToNextsIndex this e) = id_log this"
  "clock_log (addToNextsIndex this e) = clock_log this"
  "recycle (addToNextsIndex this e) = recycle this"
  "length_log (addToNextsIndex this e)
     = (if map_of (entryIndex this) (hash e) = None then length_log this + 1 else length_log this)"
  "nextsIndex (addToNextsIndex this e)
     = foldl (\<lambda>n a. AList.update a (hash e) n) (nextsIndex this) (next e)"
  by (simp_all add: addToNextsIndex_def Let_def)

lemma foldl_addToNextsIndex:
  assumes "\<forall>e \<in> set es. map_of (entryIndex this) (hash e) = None"
  shows "entryIndex (foldl addToNextsIndex this es) = entryIndex this"
    and "headsIndex (foldl addToNextsIndex this es) = headsIndex this"
    and "id_log (foldl addToNextsIndex this es) = id_log this"
    and "clock_log (foldl addToNextsIndex this es) = clock_log this"
    and "recycle (foldl addToNextsIndex this es) = recycle this"
    and "length_log (foldl addToNextsIndex this es) = length_log this + int (length es)"
    and "fst ` set (nextsIndex (foldl addToNextsIndex this es))
           = fst ` set (nextsIndex this) \<union> (\<Union>e \<in> set es. set (next e))"
    and "snd ` set (nextsIndex (foldl addToNextsIndex this es))
           \<subseteq> snd ` set (nextsIndex this) \<union> hash ` set es"
proof -
  have "entryIndex (foldl addToNextsIndex this es) = entryIndex this
    \<and> headsIndex (foldl addToNextsIndex this es) = headsIndex this
    \<and> id_log (foldl addToNextsIndex this es) = id_log this
    \<and> clock_log (foldl addToNextsIndex this es) = clock_log this
    \<and> recycle (foldl addToNextsIndex this es) = recycle this
    \<and> length_log (foldl addToNextsIndex this es) = length_log this + int (length es)
    \<and> fst ` set (nextsIndex (foldl addToNextsIndex this es))
           = fst ` set (nextsIndex this) \<union> (\<Union>e \<in> set es. set (next e))
    \<and> snd ` set (nextsIndex (foldl addToNextsIndex this es))
           \<subseteq> snd ` set (nextsIndex this) \<union> hash ` set es"
    using assms
  proof (induction es arbitrary: this)
    case Nil
    then show ?case by simp
  next
    case (Cons e es)
    let ?t = "addToNextsIndex this e"
    have pre: "\<forall>x \<in> set es. map_of (entryIndex ?t) (hash x) = None"
      using Cons.prems by (simp add: addToNextsIndex_fields)
    note IH = Cons.IH [OF pre]
    have len: "length_log ?t = length_log this + 1"
      using Cons.prems by (simp add: addToNextsIndex_fields)
    have keys: "fst ` set (nextsIndex ?t) = fst ` set (nextsIndex this) \<union> set (next e)"
      by (simp add: addToNextsIndex_fields keys_foldl_update_const)
    have vals: "snd ` set (nextsIndex ?t) \<subseteq> insert (hash e) (snd ` set (nextsIndex this))"
      by (simp add: addToNextsIndex_fields vals_foldl_update_const)
    show ?case
      apply (simp only: foldl_Cons)
      apply (intro conjI)
      subgoal using IH by (simp add: addToNextsIndex_fields)
      subgoal using IH by (simp add: addToNextsIndex_fields)
      subgoal using IH by (simp add: addToNextsIndex_fields)
      subgoal using IH by (simp add: addToNextsIndex_fields)
      subgoal using IH by (simp add: addToNextsIndex_fields)
      subgoal using IH len by simp
      subgoal using IH keys by auto
      subgoal
      proof -
        have "snd ` set (nextsIndex (foldl addToNextsIndex ?t es))
                \<subseteq> snd ` set (nextsIndex ?t) \<union> hash ` set es"
          using IH by simp
        with vals show ?thesis by (simp only: list.set image_insert) blast
      qed
      done
  qed
  then show "entryIndex (foldl addToNextsIndex this es) = entryIndex this"
    and "headsIndex (foldl addToNextsIndex this es) = headsIndex this"
    and "id_log (foldl addToNextsIndex this es) = id_log this"
    and "clock_log (foldl addToNextsIndex this es) = clock_log this"
    and "recycle (foldl addToNextsIndex this es) = recycle this"
    and "length_log (foldl addToNextsIndex this es) = length_log this + int (length es)"
    and "fst ` set (nextsIndex (foldl addToNextsIndex this es))
           = fst ` set (nextsIndex this) \<union> (\<Union>e \<in> set es. set (next e))"
    and "snd ` set (nextsIndex (foldl addToNextsIndex this es))
           \<subseteq> snd ` set (nextsIndex this) \<union> hash ` set es"
    by simp_all
qed

lemma find_eq: "find (\<lambda>a. a = k) xs = (if k \<in> set xs then Some k else None)"
  by (induction xs) auto

lemma log_okI:
  assumes "distinct (map fst (entryIndex L))" and "distinct (map fst (headsIndex L))"
    and "\<And>h e. (h, e) \<in> set (entryIndex L) \<Longrightarrow>
           hash e = h \<and> h \<noteq> [] \<and> map_of S h = Some e \<and> idDecrypted e = id_log L"
    and "\<And>h e p. (h, e) \<in> set (entryIndex L) \<Longrightarrow> p \<in> set (next e) \<Longrightarrow>
           \<exists>q. map_of (entryIndex L) p = Some q \<and> time (clock q) \<le> time (clock e)"
    and "acyclic (parents L)"
    and "\<And>h e. ((h, e) \<in> set (headsIndex L))
           = ((h, e) \<in> set (entryIndex L) \<and> map_of (nextsIndex L) h = None)"
    and "fst ` set (nextsIndex L) = (\<Union>(h, e) \<in> set (entryIndex L). set (next e))"
    and "[] \<notin> snd ` set (nextsIndex L)"
    and "length_log L = int (length (entryIndex L))"
    and "maxOplogLength (recycle L) = None"
  shows "log_ok S L"
proof -
  have a: "list_all (\<lambda>(h, e). hash e = h \<and> h \<noteq> [] \<and> map_of S h = Some e
              \<and> idDecrypted e = id_log L
              \<and> list_all (\<lambda>p. case map_of (entryIndex L) p of
                                  Some q \<Rightarrow> time (clock q) \<le> time (clock e)
                                | None \<Rightarrow> False) (next e)) (entryIndex L)"
    unfolding list_all_iff
  proof (intro ballI, clarify, intro conjI ballI)
    fix h e assume m: "(h, e) \<in> set (entryIndex L)"
    show "hash e = h" "h \<noteq> []" "map_of S h = Some e" "idDecrypted e = id_log L"
      using assms(3) [OF m] by simp_all
    fix p assume "p \<in> set (next e)"
    from assms(4) [OF m this]
    show "case map_of (entryIndex L) p of Some q \<Rightarrow> time (clock q) \<le> time (clock e)
          | None \<Rightarrow> False" by auto
  qed
  have b: "set (headsIndex L)
      = set (filter (\<lambda>(h, e). map_of (nextsIndex L) h = None) (entryIndex L))"
    using assms(6) by auto
  have c: "set (map fst (nextsIndex L)) = set (referenced L)"
    using assms(7) by (auto simp: referenced_def)
  have d: "list_all (\<lambda>(a, v). v \<noteq> []) (nextsIndex L)"
    using assms(8) unfolding list_all_iff by force
  show ?thesis
    unfolding log_ok_def using assms(1,2,5,9,10) a b c d by simp
qed

lemma log_okD:
  assumes "log_ok S L"
  shows "distinct (map fst (entryIndex L))" and "distinct (map fst (headsIndex L))"
    and "fst ` set (nextsIndex L) = (\<Union>(h, e) \<in> set (entryIndex L). set (next e))"
    and "[] \<notin> snd ` set (nextsIndex L)"
    and "length_log L = int (length (entryIndex L))"
    and "maxOplogLength (recycle L) = None"
proof -
  show "distinct (map fst (entryIndex L))" "distinct (map fst (headsIndex L))"
    "length_log L = int (length (entryIndex L))" "maxOplogLength (recycle L) = None"
    using assms by (simp_all add: log_ok_def)
  have "set (map fst (nextsIndex L)) = set (referenced L)"
    using assms by (simp add: log_ok_def)
  then show "fst ` set (nextsIndex L) = (\<Union>(h, e) \<in> set (entryIndex L). set (next e))"
    by (auto simp: referenced_def)
  have "list_all (\<lambda>(a, v). v \<noteq> []) (nextsIndex L)"
    using assms by (simp add: log_ok_def)
  then show "[] \<notin> snd ` set (nextsIndex L)"
    unfolding list_all_iff by force
qed

lemma ok_head_entry:
  assumes "log_ok S L" and "(h, e) \<in> set (headsIndex L)"
  shows "(h, e) \<in> set (entryIndex L)"
  using ok_heads [OF assms(1)] assms(2) by simp

lemma truthy_lookup:
  assumes "[] \<notin> snd ` set N"
  shows "(case map_of N k of Some v \<Rightarrow> v \<noteq> [] | None \<Rightarrow> False) = (k \<in> fst ` set N)"
proof (cases "map_of N k")
  case None
  then have "k \<notin> fst ` set N" by (simp add: map_of_eq_None_iff)
  with None show ?thesis by simp
next
  case (Some v)
  then have "(k, v) \<in> set N" by (rule map_of_SomeD)
  then have v: "v \<in> snd ` set N" and k: "k \<in> fst ` set N" by (force+)
  from v assms have "v \<noteq> []" by metis
  with Some k show ?thesis by simp
qed

lemma truthy_find:
  "k \<noteq> [] \<Longrightarrow> (case find (\<lambda>a. a = k) xs of Some a \<Rightarrow> a \<noteq> [] | None \<Rightarrow> False) = (k \<in> set xs)"
  by (simp add: find_eq)

text \<open>The merged object of two heads indexes.\<close>

lemma merged_heads_set:
  assumes okL: "log_ok S L" and okA: "log_ok S A"
  shows "set (Object_assign (Object_assign [] (headsIndex L)) (headsIndex A))
           = set (headsIndex L) \<union> set (headsIndex A)"
    and "distinct (map fst (Object_assign (Object_assign [] (headsIndex L)) (headsIndex A)))"
proof -
  let ?M = "Object_assign (headsIndex L) (headsIndex A)"
  have dL: "distinct (map fst (headsIndex L))" and dA: "distinct (map fst (headsIndex A))"
    using log_okD(2) [OF okL] log_okD(2) [OF okA] .
  have e: "Object_assign [] (headsIndex L) = headsIndex L"
    using dL by (rule Object_assign_empty)
  have dM: "distinct (map fst ?M)" using dL by (rule distinct_Object_assign)
  have mo: "map_of ?M = map_of (headsIndex L) ++ map_of (headsIndex A)"
    using dA by (rule map_of_Object_assign)
  have "((k, x) \<in> set ?M) = ((k, x) \<in> set (headsIndex L) \<or> (k, x) \<in> set (headsIndex A))" for k x
  proof -
    have "((k, x) \<in> set ?M) = (map_of ?M k = Some x)"
      using dM by simp
    also have "\<dots> = (map_of (headsIndex A) k = Some x
                  \<or> map_of (headsIndex A) k = None \<and> map_of (headsIndex L) k = Some x)"
      unfolding mo by (simp add: map_add_Some_iff)
    also have "\<dots> = ((k, x) \<in> set (headsIndex L) \<or> (k, x) \<in> set (headsIndex A))"
    proof (cases "map_of (headsIndex A) k")
      case None
      then show ?thesis using dL dA by (auto simp: map_of_eq_None_iff intro: rev_image_eqI)
    next
      case (Some y)
      then have yA: "(k, y) \<in> set (headsIndex A)" by (rule map_of_SomeD)
      have "x = y" if "(k, x) \<in> set (headsIndex L)"
        using ok_compat [OF okL okA ok_head_entry [OF okL that] ok_head_entry [OF okA yA]] .
      moreover have "x = y" if "(k, x) \<in> set (headsIndex A)"
        using map_of_is_SomeI [OF dA that] Some by simp
      ultimately show ?thesis using Some yA by auto
    qed
    finally show ?thesis .
  qed
  then show "set (Object_assign (Object_assign [] (headsIndex L)) (headsIndex A))
           = set (headsIndex L) \<union> set (headsIndex A)"
    unfolding e by auto
  show "distinct (map fst (Object_assign (Object_assign [] (headsIndex L)) (headsIndex A)))"
    unfolding e by (rule dM)
qed

lemma map_hash_snd:
  assumes "\<And>k x. (k, x) \<in> set M \<Longrightarrow> hash x = k"
  shows "map hash (map snd M) = map fst M"
  using assms by (induction M) auto

lemma set_pairs_of_entries:
  "((h, e) \<in> set (map (\<lambda>e. (hash e, e)) es)) = (e \<in> set es \<and> hash e = h)"
  by auto

lemma join_ok:
  assumes okL: "log_ok S L" and okA: "log_ok S A" and ids: "id_log L = id_log A"
    and j: "join L A (- 1) = Inr L'"
  shows "log_ok S L'"
    and "entryIndex L' = entryIndex L @ difference A L"
    and "set (entryIndex L') = set (entryIndex L) \<union> set (entryIndex A)"
    and "id_log L' = id_log L"
    and "clock_log L' = \<lparr>id_clock = id_clock (clock_log L),
           time = max (time (clock_log L))
                      (foldl maxClockTimeReducer 0 (map snd (headsIndex L')))\<rparr>"
proof -
  define new where "new = difference A L"
  define t1 where "t1 = foldl addToNextsIndex L (map snd new)"
  define nfn where "nfn = concat (map next (map snd new))"
  define vals where
    "vals = map snd (Object_assign (Object_assign [] (headsIndex L)) (headsIndex A))"
  define hl where "hl = filter (\<lambda>e. \<not> (case map_of (nextsIndex t1) (hash e) of
                                Some v \<Rightarrow> v \<noteq> [] | None \<Rightarrow> False))
      (filter (\<lambda>e. \<not> (case find (\<lambda>a. a = hash e) nfn of
                                Some a \<Rightarrow> a \<noteq> [] | None \<Rightarrow> False)) (findHeads vals))"
  note D = difference_props [OF okA ids [symmetric], folded new_def]
  have new_set: "set new = {(h, e) \<in> set (entryIndex A). map_of (entryIndex L) h = None}"
    unfolding new_def using set_difference [OF okA okL ids [symmetric]] .
  have new_hash: "hash e = h" if "(h, e) \<in> set new" for h e
    using ok_entry(1) [OF okA D(2) [OF that]] .
  have fresh: "\<forall>e \<in> set (map snd new). map_of (entryIndex L) (hash e) = None"
  proof
    fix e assume "e \<in> set (map snd new)"
    then obtain h where m: "(h, e) \<in> set new" by auto
    show "map_of (entryIndex L) (hash e) = None" using D(3) [OF m] new_hash [OF m] by simp
  qed
  note F = foldl_addToNextsIndex [OF fresh, folded t1_def]
  have L'_eq: "L' = t1\<lparr>entryIndex := Object_assign (entryIndex L) new,
        headsIndex := foldl uniqueEntriesReducer [] hl,
        clock_log := \<lparr>id_clock = id_clock (clock_log L),
           time = max (time (clock_log L))
             (foldl maxClockTimeReducer 0 (map snd (foldl uniqueEntriesReducer [] hl)))\<rparr>\<rparr>"
  proof (cases "checkEntries L (map snd (difference A L))")
    case (Some err)
    with j ids show ?thesis by (simp add: join_def Let_def)
  next
    case None
    show ?thesis
      unfolding hl_def vals_def nfn_def
      using j ids None F(1,2,4) unfolding t1_def new_def
      by (simp add: join_def Let_def)
  qed
  have disj: "fst ` set new \<inter> fst ` set (entryIndex L) = {}"
  proof -
    have "h \<notin> fst ` set (entryIndex L)" if "(h, e) \<in> set new" for h e
      using D(3) [OF that] by (simp add: map_of_eq_None_iff)
    note a = this
    show ?thesis
    proof (rule ccontr)
      assume "fst ` set new \<inter> fst ` set (entryIndex L) \<noteq> {}"
      then obtain h where h: "h \<in> fst ` set new" "h \<in> fst ` set (entryIndex L)" by blast
      from h(1) obtain e where "(h, e) \<in> set new" by auto
      from a [OF this] h(2) show False by simp
    qed
  qed
  have E: "entryIndex L' = entryIndex L @ new"
    unfolding L'_eq using Object_assign_fresh [OF D(1) disj] by simp
  have N: "nextsIndex L' = nextsIndex t1" unfolding L'_eq by simp
  have setE: "set (entryIndex L') = set (entryIndex L) \<union> set (entryIndex A)"
  proof -
    have "(h, e) \<in> set (entryIndex L) \<union> set new" if m: "(h, e) \<in> set (entryIndex A)" for h e
    proof (cases "map_of (entryIndex L) h")
      case None
      with m new_set show ?thesis by simp
    next
      case (Some e')
      then have l: "(h, e') \<in> set (entryIndex L)" by (rule map_of_SomeD)
      have "e' = e" using ok_compat [OF okL okA l m] .
      with l show ?thesis by simp
    qed
    moreover have "(h, e) \<in> set (entryIndex A)" if "(h, e) \<in> set new" for h e
      using D(2) [OF that] .
    ultimately show ?thesis unfolding E by auto
  qed
  have dE: "distinct (map fst (entryIndex L'))"
    unfolding E using log_okD(1) [OF okL] D(1) disj by auto
  have keysN: "fst ` set (nextsIndex L')
      = fst ` set (nextsIndex L) \<union> (\<Union>(h, e) \<in> set new. set (next e))"
    unfolding N F(7) by force
  have keysN': "fst ` set (nextsIndex L') = (\<Union>(h, e) \<in> set (entryIndex L'). set (next e))"
    unfolding keysN log_okD(3) [OF okL] E by auto
  have valsN: "[] \<notin> snd ` set (nextsIndex L')"
  proof
    assume "[] \<in> snd ` set (nextsIndex L')"
    with F(8) N have "[] \<in> snd ` set (nextsIndex L) \<union> hash ` set (map snd new)" by auto
    with log_okD(4) [OF okL] obtain h e where m: "(h, e) \<in> set new" "hash e = []" by force
    from ok_entry(1,2) [OF okA D(2) [OF m(1)]] m(2) show False by simp
  qed
  have entry: "hash e = h \<and> h \<noteq> [] \<and> map_of S h = Some e \<and> idDecrypted e = id_log L"
    if "(h, e) \<in> set (entryIndex L')" for h e
  proof -
    from that setE consider "(h, e) \<in> set (entryIndex L)" | "(h, e) \<in> set (entryIndex A)"
      by auto
    then show ?thesis
    proof cases
      case 1 then show ?thesis using ok_entry [OF okL 1] by simp
    next
      case 2 then show ?thesis using ok_entry [OF okA 2] ids by simp
    qed
  qed
  have nxt: "\<exists>q. map_of (entryIndex L') p = Some q \<and> time (clock q) \<le> time (clock e)"
    if m: "(h, e) \<in> set (entryIndex L')" and p: "p \<in> set (next e)" for h e p
  proof -
    from m setE consider "(h, e) \<in> set (entryIndex L)" | "(h, e) \<in> set (entryIndex A)"
      by auto
    then obtain q where q: "(p, q) \<in> set (entryIndex L')" "time (clock q) \<le> time (clock e)"
    proof cases
      case 1
      from ok_next [OF okL 1 p] setE that show ?thesis by auto
    next
      case 2
      from ok_next [OF okA 2 p] setE that show ?thesis by auto
    qed
    have "map_of (entryIndex L') p = Some q" using dE q(1) by simp
    with q(2) show ?thesis by simp
  qed
  have closure: "p \<in> fst ` set (nextsIndex L')"
    if "(h, e) \<in> set (entryIndex L')" "p \<in> set (next e)" for h e p
    unfolding keysN' using that by auto
  have acy: "acyclic (parents L')"
  proof -
    define D where "D = {(p, h). \<exists>e. (h, e) \<in> set new \<and> p \<in> set (next e)}"
    have PL': "parents L' = parents L \<union> D"
      unfolding parents_def D_def E by auto
    have "D \<subseteq> parents A"
      unfolding parents_def D_def using D(2) by auto
    then have wfD: "wf D" using ok_wf_parents [OF okA] by (rule wf_subset [rotated])
    have dis: "Domain (parents L) \<inter> Range D = {}"
    proof (rule ccontr)
      assume "Domain (parents L) \<inter> Range D \<noteq> {}"
      then obtain x where x1: "x \<in> Domain (parents L)" and x2: "x \<in> Range D" by blast
      from x1 obtain h where "(x, h) \<in> parents L" by (rule DomainE)
      then obtain e where e: "(h, e) \<in> set (entryIndex L)" "x \<in> set (next e)"
        by (rule parentsE)
      from ok_next [OF okL e] obtain q where "(x, q) \<in> set (entryIndex L)"
        by (elim exE conjE)
      then have inL: "x \<in> fst ` set (entryIndex L)" by (rule rev_image_eqI) simp
      from x2 obtain p where "(p, x) \<in> D" by (rule RangeE)
      then have "\<exists>e'. (x, e') \<in> set new" unfolding D_def by auto
      then obtain e' where "(x, e') \<in> set new" ..
      then have "x \<in> fst ` set new" by (rule rev_image_eqI) simp
      with inL disj show False by auto
    qed
    have "wf (parents L \<union> D)"
      using ok_wf_parents [OF okL] wfD dis by (rule wf_Un)
    then show ?thesis unfolding PL' by (rule wf_acyclic)
  qed
  have vals_set: "set vals = snd ` (set (headsIndex L) \<union> set (headsIndex A))"
    unfolding vals_def using merged_heads_set(1) [OF okL okA] by simp
  have head_in: "(h, e) \<in> set (entryIndex L')"
    if "(h, e) \<in> set (headsIndex L) \<union> set (headsIndex A)" for h e
    using that ok_head_entry [OF okL, of h e] ok_head_entry [OF okA, of h e] setE by auto
  have vals_iff: "(e \<in> set vals) = ((hash e, e) \<in> set (headsIndex L) \<union> set (headsIndex A))" for e
  proof
    assume "e \<in> set vals"
    then have "\<exists>k. (k, e) \<in> set (headsIndex L) \<union> set (headsIndex A)"
      unfolding vals_set by auto
    then obtain k where k: "(k, e) \<in> set (headsIndex L) \<union> set (headsIndex A)" ..
    from entry [OF head_in [OF k]] have "hash e = k" by simp
    with k show "(hash e, e) \<in> set (headsIndex L) \<union> set (headsIndex A)" by simp
  next
    assume "(hash e, e) \<in> set (headsIndex L) \<union> set (headsIndex A)"
    then show "e \<in> set vals" unfolding vals_set by (rule rev_image_eqI) simp
  qed
  have vals_entry: "(hash e, e) \<in> set (entryIndex L')" if "e \<in> set vals" for e
    using that head_in vals_iff by simp
  have dvals: "distinct (map hash vals)"
  proof -
    have "map hash vals
        = map fst (Object_assign (Object_assign [] (headsIndex L)) (headsIndex A))"
      unfolding vals_def
    proof (rule map_hash_snd)
      fix k x assume "(k, x) \<in> set (Object_assign (Object_assign [] (headsIndex L)) (headsIndex A))"
      then have "(k, x) \<in> set (headsIndex L) \<union> set (headsIndex A)"
        using merged_heads_set(1) [OF okL okA] by simp
      from entry [OF head_in [OF this]] show "hash x = k" by simp
    qed
    then show ?thesis using merged_heads_set(2) [OF okL okA] by simp
  qed
  have hl_iff: "(e \<in> set hl) = (e \<in> set vals \<and> hash e \<notin> fst ` set (nextsIndex L'))" for e
  proof (cases "e \<in> set vals")
    case False
    then show ?thesis unfolding hl_def by (simp add: set_findHeads)
  next
    case True
    have ne: "hash e \<noteq> []" using entry [OF vals_entry [OF True]] by simp
    have a: "hash e \<notin> (\<Union>x \<in> set vals. set (next x))" if "hash e \<notin> fst ` set (nextsIndex L')"
    proof
      assume "hash e \<in> (\<Union>x \<in> set vals. set (next x))"
      then obtain x where "x \<in> set vals" "hash e \<in> set (next x)" by auto
      from closure [OF vals_entry [OF this(1)] this(2)] that show False by simp
    qed
    have b: "hash e \<notin> set nfn" if "hash e \<notin> fst ` set (nextsIndex L')"
      using that unfolding keysN nfn_def by auto
    show ?thesis
      unfolding hl_def using True a b valsN
      by (auto simp: set_findHeads truthy_lookup N [symmetric] truthy_find [OF ne])
  qed
  have dhl: "distinct (map hash hl)"
    unfolding hl_def using dvals by (simp add: distinct_map_filter distinct_map_findHeads)
  have H: "headsIndex L' = map (\<lambda>e. (hash e, e)) hl"
    unfolding L'_eq using foldl_unique_fresh [OF dhl, of "[]"] by simp
  have dH: "distinct (map fst (headsIndex L'))"
    unfolding H using dhl by (simp add: comp_def)
  have hd_iff: "((h, e) \<in> set (headsIndex L'))
           = ((h, e) \<in> set (entryIndex L') \<and> map_of (nextsIndex L') h = None)" for h e
  proof
    assume "(h, e) \<in> set (headsIndex L')"
    then have m: "e \<in> set hl" "hash e = h" unfolding H by auto
    then have "e \<in> set vals" "h \<notin> fst ` set (nextsIndex L')" using hl_iff by auto
    then show "(h, e) \<in> set (entryIndex L') \<and> map_of (nextsIndex L') h = None"
      using vals_entry m(2) by (auto simp: map_of_eq_None_iff)
  next
    assume a: "(h, e) \<in> set (entryIndex L') \<and> map_of (nextsIndex L') h = None"
    then have m: "(h, e) \<in> set (entryIndex L')"
      and nk: "h \<notin> fst ` set (nextsIndex L')" by (simp_all add: map_of_eq_None_iff)
    have he: "hash e = h" using entry [OF m] by simp
    have nkL: "map_of (nextsIndex L) h = None"
      using nk keysN by (simp add: map_of_eq_None_iff)
    have "(h, e) \<in> set (headsIndex L) \<union> set (headsIndex A)"
    proof (cases "(h, e) \<in> set (entryIndex L)")
      case True
      then show ?thesis using ok_heads [OF okL, of h e] nkL by simp
    next
      case False
      with m E have n: "(h, e) \<in> set new" by auto
      have mA: "(h, e) \<in> set (entryIndex A)" using D(2) [OF n] .
      have "map_of (nextsIndex A) h = None"
      proof (rule ccontr)
        assume "map_of (nextsIndex A) h \<noteq> None"
        then obtain k x where x: "(k, x) \<in> set (entryIndex A)" "h \<in> set (next x)"
          using ok_nexts [OF okA, of h] by auto
        then have "(k, x) \<in> set (entryIndex L')" using setE by simp
        from closure [OF this x(2)] nk show False by simp
      qed
      then show ?thesis using ok_heads [OF okA, of h e] mA by simp
    qed
    then have "e \<in> set vals" using vals_iff he by simp
    then have "e \<in> set hl" using hl_iff nk he by simp
    then show "(h, e) \<in> set (headsIndex L')" unfolding H using he by auto
  qed
  have len: "length_log L' = int (length (entryIndex L'))"
    unfolding E unfolding L'_eq using F(6) log_okD(5) [OF okL] by simp
  have rc: "maxOplogLength (recycle L') = None"
    unfolding L'_eq using F(5) log_okD(6) [OF okL] by simp
  have idl: "id_log L' = id_log L" unfolding L'_eq using F(3) by simp
  show "log_ok S L'"
    using dE dH _ nxt acy hd_iff keysN' valsN len rc
  proof (rule log_okI)
    fix h e assume "(h, e) \<in> set (entryIndex L')"
    from entry [OF this] idl
    show "hash e = h \<and> h \<noteq> [] \<and> map_of S h = Some e \<and> idDecrypted e = id_log L'" by simp
  qed
  show "entryIndex L' = entryIndex L @ difference A L" using E new_def by simp
  show "set (entryIndex L') = set (entryIndex L) \<union> set (entryIndex A)" by (rule setE)
  show "id_log L' = id_log L" by (rule idl)
  show "clock_log L' = \<lparr>id_clock = id_clock (clock_log L),
           time = max (time (clock_log L))
                      (foldl maxClockTimeReducer 0 (map snd (headsIndex L')))\<rparr>"
    unfolding L'_eq by simp
qed


lemma findHeads_Nil: "findHeads [] = []"
  by (simp add: findHeads_def sort_js_def)

lemma Log_new_ok:
  assumes "entries_o options \<in> {None, Some []}" and "heads_o options = None"
    and "recycle_o options \<in> {None, Some \<lparr>maxOplogLength = None, cutOplogToLength = None\<rparr>}"
  shows "log_ok S (Log_new ipfs ident signFn vfy acc srt randomId options)"
  using assms
  by (auto simp: log_ok_def Log_new_def referenced_def parents_def findHeads_Nil Let_def sort_js_def
        acyclic_def)

lemma maxClock_Cons:
  "foldl maxClockTimeReducer a (x # xs) = foldl maxClockTimeReducer (max a (time (clock x))) xs"
  by (simp add: maxClockTimeReducer_def)

lemma foldl_maxClock_lower: "a \<le> foldl maxClockTimeReducer a xs"
proof (induction xs arbitrary: a)
  case Nil
  show ?case by simp
next
  case (Cons x xs)
  have "a \<le> max a (time (clock x))" by simp
  also have "\<dots> \<le> foldl maxClockTimeReducer (max a (time (clock x))) xs" by (rule Cons.IH)
  finally show ?case by (simp only: maxClock_Cons)
qed

lemma foldl_maxClock_ge:
  "x \<in> set xs \<Longrightarrow> time (clock x) \<le> foldl maxClockTimeReducer a xs"
proof (induction xs arbitrary: a)
  case Nil
  then show ?case by simp
next
  case (Cons y ys)
  show ?case
  proof (cases "x = y")
    case True
    have "time (clock x) \<le> max a (time (clock y))" using True by simp
    also have "\<dots> \<le> foldl maxClockTimeReducer (max a (time (clock y))) ys"
      by (rule foldl_maxClock_lower)
    finally show ?thesis by (simp only: maxClock_Cons)
  next
    case False
    with Cons.prems have "x \<in> set ys" by simp
    from Cons.IH [OF this] show ?thesis by (simp only: maxClock_Cons)
  qed
qed

lemma foldl_maxClock_attained:
  "foldl maxClockTimeReducer a xs = a \<or> (\<exists>x \<in> set xs. foldl maxClockTimeReducer a xs = time (clock x))"
proof (induction xs arbitrary: a)
  case Nil
  show ?case by simp
next
  case (Cons y ys)
  from Cons.IH [of "max a (time (clock y))"]
  show ?case unfolding maxClock_Cons by (auto simp: max_def split: if_splits)
qed

lemma keys_foldl_unique:
  "fst ` set (foldl uniqueEntriesReducer acc es) = fst ` set acc \<union> hash ` set es"
  by (induction es arbitrary: acc) (auto simp: uniqueEntriesReducer_def AList.dom_update)

lemma set_heads: "set (heads L) = snd ` set (headsIndex L)"
  by (simp add: heads_def)

lemma heads_clock_update [simp]: "heads (L\<lparr>clock_log := c\<rparr>) = heads L"
  by (simp add: heads_def)

lemma log_ok_clock [simp]: "log_ok S (L\<lparr>clock_log := c\<rparr>) = log_ok S L"
  by (simp add: log_ok_def referenced_def parents_def)

lemma Entry_create_Inr:
  assumes "Entry_create ipfs signFn ident logId0 data nexts clk refs0 assertAllowed = Inr e"
  shows "clock e = clk" and "next e = nexts" and "idDecrypted e = logId0"
    and "payload e = data" and "identity_e e = ident" and "assertAllowed data ident"
  using assms by (auto simp: Entry_create_def Let_def split: if_splits)

lemma append_unfold:
  fixes L :: Log and data :: string and options :: AppendOptions
  defines "this1 \<equiv> L\<lparr>clock_log := \<lparr>id_clock = id_clock (clock_log L),
           time = number_plus_one (max (time (clock_log L)) (foldl maxClockTimeReducer 0 (heads L)))\<rparr>\<rparr>"
    and "nexts \<equiv> map fst (foldl uniqueEntriesReducer [] (rev (heads L)))"
  shows "append L data options =
     (if (recieverIdentity options \<or> recieverPayload options \<or> recieverClock options)
            \<and> \<not> encryption L
      then Inl (Error ''Message is intended to be encrypted but no encryption methods are provided for the log'', this1)
      else case Entry_create (storage L) (provider_sign L) (identity L) (id_log L)
                  data nexts (clock_log this1) (append_refs L options) (access L) of
             Inl err \<Rightarrow> Inl (err, this1)
           | Inr entry \<Rightarrow>
               Inr (entry,
                 let this5 = this1\<lparr>entryIndex := AList.update (hash entry) entry (entryIndex L),
                        nextsIndex := foldl (\<lambda>n a. AList.update a (hash entry) n) (nextsIndex L) nexts,
                        headsIndex := [(hash entry, entry)], length_log := length_log L + 1\<rparr>
                 in case maxOplogLength (recycle L) of None \<Rightarrow> this5
                    | Some m \<Rightarrow> if length_log this5 > m
                        then cutLog this5 (case cutOplogToLength (recycle L) of
                                                     Some c \<Rightarrow> c | None \<Rightarrow> 0)
                        else this5))"
  unfolding this1_def nexts_def
  by (simp add: append_def append_refs_def Let_def split del: if_split cong: if_cong sum.case_cong option.case_cong)

lemma append_Inr:
  assumes a: "append L data options = Inr (e, L')"
  shows "clock e = \<lparr>id_clock = id_clock (clock_log L),
           time = number_plus_one (max (time (clock_log L)) (foldl maxClockTimeReducer 0 (heads L)))\<rparr>"
    and "next e = map fst (foldl uniqueEntriesReducer [] (rev (heads L)))"
    and "idDecrypted e = id_log L"
    and "maxOplogLength (recycle L) = None \<Longrightarrow>
         L' = L\<lparr>clock_log := clock e,
                entryIndex := AList.update (hash e) e (entryIndex L),
                nextsIndex := foldl (\<lambda>n a. AList.update a (hash e) n) (nextsIndex L) (next e),
                headsIndex := [(hash e, e)],
                length_log := length_log L + 1\<rparr>"
proof -
  define this1 where "this1 = L\<lparr>clock_log := \<lparr>id_clock = id_clock (clock_log L),
           time = number_plus_one (max (time (clock_log L)) (foldl maxClockTimeReducer 0 (heads L)))\<rparr>\<rparr>"
  define nexts where "nexts = map fst (foldl uniqueEntriesReducer [] (rev (heads L)))"
  define refs0 where "refs0 = append_refs L options"
  have unf: "append L data options =
     (if (recieverIdentity options \<or> recieverPayload options \<or> recieverClock options)
            \<and> \<not> encryption L
      then Inl (Error ''Message is intended to be encrypted but no encryption methods are provided for the log'', this1)
      else case Entry_create (storage L) (provider_sign L) (identity L) (id_log L)
                  data nexts (clock_log this1) refs0 (access L) of
             Inl err \<Rightarrow> Inl (err, this1)
           | Inr entry \<Rightarrow>
               Inr (entry,
                 let this5 = this1\<lparr>entryIndex := AList.update (hash entry) entry (entryIndex L),
                        nextsIndex := foldl (\<lambda>n a. AList.update a (hash entry) n) (nextsIndex L) nexts,
                        headsIndex := [(hash entry, entry)], length_log := length_log L + 1\<rparr>
                 in case maxOplogLength (recycle L) of None \<Rightarrow> this5
                    | Some m \<Rightarrow> if length_log this5 > m
                        then cutLog this5 (case cutOplogToLength (recycle L) of
                                                     Some c \<Rightarrow> c | None \<Rightarrow> 0)
                        else this5))"
    unfolding this1_def nexts_def refs0_def by (rule append_unfold)
  have c: "\<not> ((recieverIdentity options \<or> recieverPayload options \<or> recieverClock options)
            \<and> \<not> encryption L)"
  proof
    assume "(recieverIdentity options \<or> recieverPayload options \<or> recieverClock options)
            \<and> \<not> encryption L"
    with a unf show False by simp
  qed
  have ec: "Entry_create (storage L) (provider_sign L) (identity L) (id_log L)
                  data nexts (clock_log this1) refs0 (access L) = Inr e"
    and L': "L' = (let this5 = this1\<lparr>entryIndex := AList.update (hash e) e (entryIndex L),
                  nextsIndex := foldl (\<lambda>n a. AList.update a (hash e) n) (nextsIndex L) nexts,
                  headsIndex := [(hash e, e)], length_log := length_log L + 1\<rparr>
                in case maxOplogLength (recycle L) of None \<Rightarrow> this5
                   | Some m \<Rightarrow> if length_log this5 > m
                       then cutLog this5 (case cutOplogToLength (recycle L) of
                                                     Some c \<Rightarrow> c | None \<Rightarrow> 0)
                       else this5)"
  proof -
    show "Entry_create (storage L) (provider_sign L) (identity L) (id_log L)
                  data nexts (clock_log this1) refs0 (access L) = Inr e"
    proof (cases "Entry_create (storage L) (provider_sign L) (identity L) (id_log L)
                  data nexts (clock_log this1) refs0 (access L)")
      case (Inl err)
      with a unf c show ?thesis by simp
    next
      case (Inr entry)
      with a unf c show ?thesis by simp
    qed
    with a unf c show "L' = (let this5 = this1\<lparr>entryIndex := AList.update (hash e) e (entryIndex L),
                  nextsIndex := foldl (\<lambda>n a. AList.update a (hash e) n) (nextsIndex L) nexts,
                  headsIndex := [(hash e, e)], length_log := length_log L + 1\<rparr>
                in case maxOplogLength (recycle L) of None \<Rightarrow> this5
                   | Some m \<Rightarrow> if length_log this5 > m
                       then cutLog this5 (case cutOplogToLength (recycle L) of
                                                     Some c \<Rightarrow> c | None \<Rightarrow> 0)
                       else this5)" by simp
  qed
  note E = Entry_create_Inr [OF ec]
  show "clock e = \<lparr>id_clock = id_clock (clock_log L),
           time = number_plus_one (max (time (clock_log L)) (foldl maxClockTimeReducer 0 (heads L)))\<rparr>"
    using E(1) by (simp add: this1_def)
  show "next e = map fst (foldl uniqueEntriesReducer [] (rev (heads L)))"
    using E(2) by (simp add: nexts_def)
  show "idDecrypted e = id_log L" using E(3) .
  show "L' = L\<lparr>clock_log := clock e,
                entryIndex := AList.update (hash e) e (entryIndex L),
                nextsIndex := foldl (\<lambda>n a. AList.update a (hash e) n) (nextsIndex L) (next e),
                headsIndex := [(hash e, e)],
                length_log := length_log L + 1\<rparr>" if "maxOplogLength (recycle L) = None"
    using L' that E(1,2) by (simp add: this1_def)
qed

lemma append_Inl:
  assumes "append L data options = Inl (err, L')"
  shows "L' = L\<lparr>clock_log := \<lparr>id_clock = id_clock (clock_log L),
           time = number_plus_one (max (time (clock_log L)) (foldl maxClockTimeReducer 0 (heads L)))\<rparr>\<rparr>"
proof -
  define refs0 where "refs0 = append_refs L options"
  have unf: "append L data options =
     (if (recieverIdentity options \<or> recieverPayload options \<or> recieverClock options)
            \<and> \<not> encryption L
      then Inl (Error ''Message is intended to be encrypted but no encryption methods are provided for the log'', L\<lparr>clock_log := \<lparr>id_clock = id_clock (clock_log L),
           time = number_plus_one (max (time (clock_log L)) (foldl maxClockTimeReducer 0 (heads L)))\<rparr>\<rparr>)
      else case Entry_create (storage L) (provider_sign L) (identity L) (id_log L)
                  data (map fst (foldl uniqueEntriesReducer [] (rev (heads L)))) (clock_log (L\<lparr>clock_log := \<lparr>id_clock = id_clock (clock_log L),
           time = number_plus_one (max (time (clock_log L)) (foldl maxClockTimeReducer 0 (heads L)))\<rparr>\<rparr>)) refs0 (access L) of
             Inl err \<Rightarrow> Inl (err, L\<lparr>clock_log := \<lparr>id_clock = id_clock (clock_log L),
           time = number_plus_one (max (time (clock_log L)) (foldl maxClockTimeReducer 0 (heads L)))\<rparr>\<rparr>)
           | Inr entry \<Rightarrow>
               Inr (entry,
                 let this5 = L\<lparr>clock_log := \<lparr>id_clock = id_clock (clock_log L),
           time = number_plus_one (max (time (clock_log L)) (foldl maxClockTimeReducer 0 (heads L)))\<rparr>\<rparr>\<lparr>entryIndex := AList.update (hash entry) entry (entryIndex L),
                        nextsIndex := foldl (\<lambda>n a. AList.update a (hash entry) n) (nextsIndex L) (map fst (foldl uniqueEntriesReducer [] (rev (heads L)))),
                        headsIndex := [(hash entry, entry)], length_log := length_log L + 1\<rparr>
                 in case maxOplogLength (recycle L) of None \<Rightarrow> this5
                    | Some m \<Rightarrow> if length_log this5 > m
                        then cutLog this5 (case cutOplogToLength (recycle L) of
                                                     Some c \<Rightarrow> c | None \<Rightarrow> 0)
                        else this5))"
    unfolding refs0_def using append_unfold [of L data options] by simp
  from assms show ?thesis unfolding unf by (simp split: if_splits sum.splits)
qed

lemma store_ok_nonempty:
  assumes "store_ok S" and "map_of S h = Some e"
  shows "h \<noteq> []"
proof -
  from assms(2) have "(h, e) \<in> set S" by (rule map_of_SomeD)
  with assms(1) show ?thesis unfolding store_ok_def list_all_iff by force
qed

lemma head_hash:
  assumes "log_ok S L" and "(k, x) \<in> set (headsIndex L)"
  shows "hash x = k"
  using ok_entry(1) [OF assms(1) ok_head_entry [OF assms]] .

lemma nexts_of_heads:
  assumes ok: "log_ok S L"
  shows "set (map fst (foldl uniqueEntriesReducer [] (rev (heads L)))) = fst ` set (headsIndex L)"
proof -
  have "hash ` snd ` set (headsIndex L) = fst ` set (headsIndex L)"
  proof (rule set_eqI)
    fix k
    show "(k \<in> hash ` snd ` set (headsIndex L)) = (k \<in> fst ` set (headsIndex L))"
    proof
      assume "k \<in> hash ` snd ` set (headsIndex L)"
      then have "\<exists>k' x. (k', x) \<in> set (headsIndex L) \<and> k = hash x" by force
      then obtain k' x where x: "(k', x) \<in> set (headsIndex L)" "k = hash x" by (elim exE conjE)
      from head_hash [OF ok x(1)] x show "k \<in> fst ` set (headsIndex L)"
        by (intro image_eqI [of _ _ "(k', x)"]) simp_all
    next
      assume "k \<in> fst ` set (headsIndex L)"
      then have "\<exists>x. (k, x) \<in> set (headsIndex L)" by auto
      then obtain x where x: "(k, x) \<in> set (headsIndex L)" ..
      from head_hash [OF ok x] x show "k \<in> hash ` snd ` set (headsIndex L)"
        by (intro image_eqI [of _ _ x] image_eqI [of _ _ "(k, x)"]) simp_all
    qed
  qed
  then show ?thesis by (simp add: keys_foldl_unique set_heads)
qed

lemma number_plus_one_ge: "x \<le> number_plus_one x"
  by (simp add: number_plus_one_def)

lemma number_plus_one_exact: "x < 2 ^ 53 \<Longrightarrow> number_plus_one x = x + 1"
  by (simp add: number_plus_one_def)

lemma append_ok:
  assumes ok: "log_ok S L" and st: "store_ok S"
    and a: "append L data options = Inr (e, L')" and s: "map_of S (hash e) = Some e"
  shows "log_ok S L'"
    and "entryIndex L' = entryIndex L @ [(hash e, e)]"
    and "id_log L' = id_log L"
proof -
  note rc = log_okD(6) [OF ok]
  note A = append_Inr [OF a]
  note L' = A(4) [OF rc]
  define newTime where
    "newTime = number_plus_one (max (time (clock_log L)) (foldl maxClockTimeReducer 0 (heads L)))"
  have te: "time (clock e) = newTime" using A(1) by (simp add: newTime_def)
  have ne: "hash e \<noteq> []" using store_ok_nonempty [OF st s] .
  have nx: "set (next e) = fst ` set (headsIndex L)"
    unfolding A(2) using nexts_of_heads [OF ok] .
  have head_le: "time (clock x) \<le> newTime" if "(k, x) \<in> set (headsIndex L)" for k x
  proof -
    have "x \<in> set (heads L)" unfolding set_heads using that by (rule rev_image_eqI) simp
    from foldl_maxClock_ge [OF this, of 0]
    have "time (clock x) \<le> max (time (clock_log L)) (foldl maxClockTimeReducer 0 (heads L))"
      by simp
    also have "\<dots> \<le> newTime" unfolding newTime_def by (rule number_plus_one_ge)
    finally show ?thesis .
  qed
  have fresh: "hash e \<notin> fst ` set (entryIndex L)"
  proof
    assume "hash e \<in> fst ` set (entryIndex L)"
    then have "\<exists>x. (hash e, x) \<in> set (entryIndex L)" by auto
    then obtain x where x: "(hash e, x) \<in> set (entryIndex L)" ..
    from ok_entry(3) [OF ok x] s have xe: "x = e" by simp
    from below_head [OF ok x]
    have "\<exists>k y. (k, y) \<in> set (headsIndex L) \<and> (hash e, k) \<in> (parents L)\<^sup>*" by auto
    then obtain k y where y: "(k, y) \<in> set (headsIndex L)" "(hash e, k) \<in> (parents L)\<^sup>*"
      by (elim exE conjE)
    have "k \<in> fst ` set (headsIndex L)" using y(1) by (rule rev_image_eqI) simp
    then have "k \<in> set (next e)" unfolding nx .
    from parentsI [OF x [unfolded xe] this] y(2)
    have "(k, k) \<in> (parents L)\<^sup>+" by (rule rtrancl_into_trancl2)
    with ok_acyclic [OF ok] show False by (simp add: acyclic_def)
  qed
  have E: "entryIndex L' = entryIndex L @ [(hash e, e)]"
    unfolding L' using update_fresh [OF fresh] by simp
  have N: "nextsIndex L' = foldl (\<lambda>n a. AList.update a (hash e) n) (nextsIndex L) (next e)"
    unfolding L' by simp
  have H: "headsIndex L' = [(hash e, e)]" unfolding L' by simp
  have idl: "id_log L' = id_log L" unfolding L' by simp
  have keysN: "fst ` set (nextsIndex L') = fst ` set (nextsIndex L) \<union> set (next e)"
    unfolding N by (rule keys_foldl_update_const)
  have dE: "distinct (map fst (entryIndex L'))"
    unfolding E using log_okD(1) [OF ok] fresh by simp
  have entry: "hash x = k \<and> k \<noteq> [] \<and> map_of S k = Some x \<and> idDecrypted x = id_log L'"
    if "(k, x) \<in> set (entryIndex L')" for k x
  proof (cases "(k, x) \<in> set (entryIndex L)")
    case True
    then show ?thesis using ok_entry [OF ok True] idl by simp
  next
    case False
    with that E have "k = hash e" "x = e" by simp_all
    then show ?thesis using ne s A(3) idl by simp
  qed
  have in_old: "map_of (entryIndex L') p = Some q" if "(p, q) \<in> set (entryIndex L)" for p q
  proof -
    have "(p, q) \<in> set (entryIndex L')" using that E by simp
    with dE show ?thesis by simp
  qed
  have nxt: "\<exists>q. map_of (entryIndex L') p = Some q \<and> time (clock q) \<le> time (clock x)"
    if m: "(k, x) \<in> set (entryIndex L')" and p: "p \<in> set (next x)" for k x p
  proof (cases "(k, x) \<in> set (entryIndex L)")
    case True
    from ok_next [OF ok True p] obtain q
      where "(p, q) \<in> set (entryIndex L)" "time (clock q) \<le> time (clock x)" by (elim exE conjE)
    with in_old show ?thesis by auto
  next
    case False
    with m E have x: "x = e" by simp
    from p x nx have "\<exists>q. (p, q) \<in> set (headsIndex L)" by auto
    then obtain q where q: "(p, q) \<in> set (headsIndex L)" ..
    from in_old [OF ok_head_entry [OF ok q]] head_le [OF q] te x show ?thesis by simp
  qed
  have refd: "fst ` set (nextsIndex L) \<subseteq> fst ` set (entryIndex L)"
  proof
    fix p assume "p \<in> fst ` set (nextsIndex L)"
    then have "map_of (nextsIndex L) p \<noteq> None" by (simp add: map_of_eq_None_iff)
    then have "\<exists>k x. (k, x) \<in> set (entryIndex L) \<and> p \<in> set (next x)"
      using ok_nexts [OF ok, of p] by auto
    then obtain k x where x: "(k, x) \<in> set (entryIndex L)" "p \<in> set (next x)"
      by (elim exE conjE)
    from ok_next [OF ok x] obtain q where "(p, q) \<in> set (entryIndex L)" by (elim exE conjE)
    then show "p \<in> fst ` set (entryIndex L)" by (rule rev_image_eqI) simp
  qed
  have heads_in: "fst ` set (headsIndex L) \<subseteq> fst ` set (entryIndex L)"
  proof
    fix p assume "p \<in> fst ` set (headsIndex L)"
    then have "\<exists>q. (p, q) \<in> set (headsIndex L)" by auto
    then obtain q where "(p, q) \<in> set (headsIndex L)" ..
    from ok_head_entry [OF ok this] show "p \<in> fst ` set (entryIndex L)"
      by (rule rev_image_eqI) simp
  qed
  have e_not_N: "hash e \<notin> fst ` set (nextsIndex L')"
    unfolding keysN nx using fresh refd heads_in by auto
  have hd_iff: "((k, x) \<in> set (headsIndex L'))
           = ((k, x) \<in> set (entryIndex L') \<and> map_of (nextsIndex L') k = None)" for k x
  proof (cases "(k, x) \<in> set (entryIndex L)")
    case True
    have kne: "k \<noteq> hash e" using True fresh by (auto intro: rev_image_eqI)
    have "k \<in> fst ` set (nextsIndex L')"
    proof (cases "map_of (nextsIndex L) k = None")
      case True': True
      with True have "(k, x) \<in> set (headsIndex L)" using ok_heads [OF ok, of k x] by simp
      then have "k \<in> fst ` set (headsIndex L)" by (rule rev_image_eqI) simp
      then show ?thesis unfolding keysN nx by simp
    next
      case False
      then show ?thesis unfolding keysN by (simp add: map_of_eq_None_iff)
    qed
    then have "map_of (nextsIndex L') k \<noteq> None" by (simp add: map_of_eq_None_iff)
    with kne show ?thesis unfolding H by simp
  next
    case False
    show ?thesis
    proof (cases "(k, x) = (hash e, e)")
      case True
      then show ?thesis unfolding H E using e_not_N by (simp add: map_of_eq_None_iff)
    next
      case False': False
      with False show ?thesis unfolding H E by auto
    qed
  qed
  have keysN': "fst ` set (nextsIndex L') = (\<Union>(h, e) \<in> set (entryIndex L'). set (next e))"
    unfolding keysN log_okD(3) [OF ok] E by auto
  have valsN: "[] \<notin> snd ` set (nextsIndex L')"
  proof
    assume "[] \<in> snd ` set (nextsIndex L')"
    with vals_foldl_update_const [of "hash e" "nextsIndex L" "next e"] N
    have "[] \<in> insert (hash e) (snd ` set (nextsIndex L))" by auto
    with ne log_okD(4) [OF ok] show False by simp
  qed
  have len: "length_log L' = int (length (entryIndex L'))"
    unfolding E unfolding L' using log_okD(5) [OF ok] by simp
  have rc': "maxOplogLength (recycle L') = None" unfolding L' using rc by simp
  have dH: "distinct (map fst (headsIndex L'))" unfolding H by simp
  have acy: "acyclic (parents L')"
  proof -
    define D where "D = {(p, h). h = hash e \<and> p \<in> set (next e)}"
    have PL': "parents L' = parents L \<union> D"
      unfolding parents_def D_def E by auto
    have nself: "hash e \<notin> set (next e)"
    proof
      assume "hash e \<in> set (next e)"
      then have "hash e \<in> fst ` set (headsIndex L)" unfolding nx .
      with heads_in fresh show False by blast
    qed
    have "D \<subseteq> measure (\<lambda>x. if x = hash e then 1 else 0)"
      unfolding D_def using nself by auto
    then have wfD: "wf D" by (rule wf_subset [OF wf_measure])
    have dis: "Domain (parents L) \<inter> Range D = {}"
    proof (rule ccontr)
      assume "Domain (parents L) \<inter> Range D \<noteq> {}"
      then obtain x where x1: "x \<in> Domain (parents L)" and x2: "x \<in> Range D" by blast
      from x2 have xe: "x = hash e" unfolding D_def by auto
      from x1 obtain h where "(x, h) \<in> parents L" by (rule DomainE)
      then obtain e' where e': "(h, e') \<in> set (entryIndex L)" "x \<in> set (next e')"
        by (rule parentsE)
      from ok_next [OF ok e'] obtain q where "(x, q) \<in> set (entryIndex L)"
        by (elim exE conjE)
      then have "x \<in> fst ` set (entryIndex L)" by (rule rev_image_eqI) simp
      with fresh xe show False by simp
    qed
    have "wf (parents L \<union> D)"
      using ok_wf_parents [OF ok] wfD dis by (rule wf_Un)
    then show ?thesis unfolding PL' by (rule wf_acyclic)
  qed
  show "log_ok S L'"
    using dE dH entry nxt acy hd_iff keysN' valsN len rc' by (rule log_okI)
  show "entryIndex L' = entryIndex L @ [(hash e, e)]" by (rule E)
  show "id_log L' = id_log L" by (rule idl)
qed

lemma append_failed_ok:
  assumes "log_ok S L" and "append L data options = Inl (err, L')"
  shows "log_ok S L'"
  using assms(1) unfolding append_Inl [OF assms(2)] by simp

lemma built_ok:
  assumes "built S L"
  shows "log_ok S L \<and> store_ok S"
  using assms
proof (induction rule: built.induct)
  case (built_new options ipfs ident signFn vfy acc srt randomId)
  then show ?case using Log_new_ok by simp
next
  case (built_append L data options e L')
  then show ?case using append_ok(1) by blast
next
  case (built_append_failed L data options err L')
  then show ?case using append_failed_ok by blast
next
  case (built_join L A L')
  show ?case
  proof (cases "id_log L = id_log A")
    case True
    with built_join show ?thesis using join_ok(1) by blast
  next
    case False
    with built_join.hyps(3) have "L' = L" by (simp add: join_def)
    with built_join show ?thesis by simp
  qed
qed

text \<open>What the entries determine.\<close>

lemma headsMax_mono:
  assumes okX: "log_ok S X" and okY: "log_ok S Y"
    and sub: "set (entryIndex X) \<subseteq> set (entryIndex Y)"
  shows "headsMax X \<le> headsMax Y"
proof -
  from foldl_maxClock_attained [of 0 "map snd (headsIndex X)"]
  consider "headsMax X = 0"
    | x where "x \<in> set (map snd (headsIndex X))" "headsMax X = time (clock x)"
    unfolding headsMax_def by auto
  then show ?thesis
  proof cases
    case 1
    then show ?thesis using foldl_maxClock_lower [of 0 "map snd (headsIndex Y)"]
      by (simp add: headsMax_def)
  next
    case 2
    from 2(1) have "\<exists>k. (k, x) \<in> set (headsIndex X)" by auto
    then obtain k where "(k, x) \<in> set (headsIndex X)" ..
    from ok_head_entry [OF okX this] sub have "(k, x) \<in> set (entryIndex Y)" by auto
    from below_head [OF okY this]
    have "\<exists>k' y. (k', y) \<in> set (headsIndex Y) \<and> time (clock x) \<le> time (clock y)" by auto
    then obtain k' y where y: "(k', y) \<in> set (headsIndex Y)" "time (clock x) \<le> time (clock y)"
      by (elim exE conjE)
    have "y \<in> set (map snd (headsIndex Y))" using y(1) by (auto intro: rev_image_eqI)
    from foldl_maxClock_ge [OF this, of 0] y(2) 2(2) show ?thesis by (simp add: headsMax_def)
  qed
qed

lemma heads_determined:
  assumes okX: "log_ok S X" and okY: "log_ok S Y"
    and eq: "set (entryIndex X) = set (entryIndex Y)"
  shows "set (headsIndex X) = set (headsIndex Y)"
    and "length_log X = length_log Y"
    and "headsMax X = headsMax Y"
proof -
  have keys: "fst ` set (nextsIndex X) = fst ` set (nextsIndex Y)"
    unfolding log_okD(3) [OF okX] log_okD(3) [OF okY] eq ..
  have "((k, x) \<in> set (headsIndex X)) = ((k, x) \<in> set (headsIndex Y))" for k x
    unfolding ok_heads [OF okX] ok_heads [OF okY] map_of_eq_None_iff keys eq ..
  then show "set (headsIndex X) = set (headsIndex Y)" by auto
  have "length (entryIndex X) = length (entryIndex Y)"
  proof -
    have "distinct (entryIndex X)" "distinct (entryIndex Y)"
      using log_okD(1) [OF okX] log_okD(1) [OF okY] by (simp_all add: distinct_map)
    then have "length (entryIndex X) = card (set (entryIndex X))"
      "length (entryIndex Y) = card (set (entryIndex Y))"
      by (simp_all add: distinct_card)
    with eq show ?thesis by simp
  qed
  then show "length_log X = length_log Y"
    using log_okD(5) [OF okX] log_okD(5) [OF okY] by simp
  show "headsMax X = headsMax Y"
    using headsMax_mono [OF okX okY] headsMax_mono [OF okY okX] eq by auto
qed

lemma difference_Nil:
  assumes okL: "log_ok S L" and okA: "log_ok S A" and ids: "id_log A = id_log L"
    and sub: "set (entryIndex A) \<subseteq> set (entryIndex L)"
  shows "difference A L = []"
proof -
  have "set (difference A L) = {}"
  proof -
    have "map_of (entryIndex L) h \<noteq> None" if "(h, e) \<in> set (entryIndex A)" for h e
    proof -
      from that sub have "(h, e) \<in> set (entryIndex L)" by auto
      then show ?thesis using ok_lookup [OF okL, of h e] by simp
    qed
    then show ?thesis unfolding set_difference [OF okA okL ids] by auto
  qed
  then show ?thesis by simp
qed

lemma join_again:
  assumes okL: "log_ok S L" and okA: "log_ok S A" and ids: "id_log A = id_log L"
    and sub: "set (entryIndex A) \<subseteq> set (entryIndex L)"
  shows "\<exists>L'. join L A (- 1) = Inr L'"
  using difference_Nil [OF assms] ids by (simp add: join_def Let_def)

subsection \<open>The example logs\<close>

lemma store0_ok: "store_ok S0"
  by code_simp

lemma newLog_built: "built S0 (newLog i)"
  unfolding newLog_def by (rule built_new) (simp_all add: store0_ok opts0_def)

lemma app_built:
  assumes "built S L"
    and "case append L d ao of Inr (e, L') \<Rightarrow> map_of S (hash e) = Some e | Inl x \<Rightarrow> True"
  shows "built S (app L d)"
proof (cases "append L d ao")
  case (Inl x)
  obtain err L' where x: "x = (err, L')" by (cases x)
  from built_append_failed [OF assms(1) Inl [unfolded x]] show ?thesis
    by (simp add: app_def Inl x)
next
  case (Inr y)
  obtain e L' where y: "y = (e, L')" by (cases y)
  from assms(2) have "map_of S (hash e) = Some e" by (simp add: Inr y)
  from built_append [OF assms(1) Inr [unfolded y] this] show ?thesis
    by (simp add: app_def Inr y)
qed

lemma jn_built:
  assumes "built S L" and "built S A"
  shows "built S (jn L A)"
proof (cases "join L A (- 1)")
  case (Inl err)
  with assms(1) show ?thesis by (simp add: jn_def)
next
  case (Inr L')
  from built_join [OF assms Inr] show ?thesis by (simp add: jn_def Inr)
qed

lemma jn_Inr: "\<not> isl (join L A (- 1)) \<Longrightarrow> join L A (- 1) = Inr (jn L A)"
  by (cases "join L A (- 1)") (simp_all add: jn_def)

lemma A1_built: "built S0 A1"
  unfolding A1_def by (rule app_built [OF newLog_built]) code_simp

lemma A2_built: "built S0 A2"
  unfolding A2_def by (rule app_built [OF A1_built]) code_simp

lemma A3_built: "built S0 A3"
  unfolding A3_def by (rule app_built [OF A2_built]) code_simp

lemma B1_built: "built S0 B1"
  unfolding B1_def by (rule app_built [OF newLog_built]) code_simp

lemma B2_built: "built S0 B2"
  unfolding B2_def by (rule app_built [OF B1_built]) code_simp

lemma A1_A2_ids: "id_log A2 = id_log A1" "id_log B2 = id_log A1"
  by code_simp+

lemma A1_A2_B2_joins:
  "\<not> isl (join A1 A2 (- 1))" "\<not> isl (join (jn A1 A2) B2 (- 1))"
  "\<not> isl (join A1 B2 (- 1))" "\<not> isl (join (jn A1 B2) A2 (- 1))"
  by code_simp+

lemma A1_append: "\<not> isl (append A1 ''a2'' ao)"
  by code_simp

subsection \<open>The claims about the log\<close>

text \<open>
  C2, as stated, fails: the clock time is a JavaScript number, and from \<open>2^53\<close> on adding 1
  does not always change it. \<open>bigLog\<close> is constructed with the clock time \<open>2^53\<close>. The first
  entry appended to it gets the clock time \<open>2^53\<close>, not \<open>2^53 + 1\<close>; the second entry has
  the first as its only parent and gets the clock time \<open>2^53\<close> again, so the clock of the
  child is not greater than the clock of its parent.
\<close>

theorem append_repeats_clock_time_from_2_53:
  "time (clock_log bigLog) = 2 ^ 53
   \<and> \<not> isl (append bigLog ''a1'' ao)
   \<and> time (clock (fst (projr (append bigLog ''a1'' ao)))) = 2 ^ 53
   \<and> \<not> isl (append (app bigLog ''a1'') ''a2'' ao)
   \<and> next (fst (projr (append (app bigLog ''a1'') ''a2'' ao)))
       = [hash (fst (projr (append bigLog ''a1'' ao)))]
   \<and> time (clock (fst (projr (append (app bigLog ''a1'') ''a2'' ao)))) = 2 ^ 53
   \<and> Clock_compare (clock (fst (projr (append (app bigLog ''a1'') ''a2'' ao))))
                     (clock (fst (projr (append bigLog ''a1'' ao)))) = 0"
  by code_simp

text \<open>
  C2, amended. When \<open>append\<close> succeeds, the clock time of the new entry is the larger of
  the clock time of the log and the largest clock time of the heads, plus one as
  JavaScript numbers add, and its clock id is that of the log; its \<open>next\<close> holds exactly
  the hashes of the heads; and its clock time is not below the clock time of any head.
  While that maximum is below \<open>2^53\<close>, the clock time of the new entry is the maximum plus
  one, it is above the clock time of every head, and the clock of the new entry is
  greater than the clock of every head, that is of every parent, in the Lamport
  comparison.
\<close>

theorem append_clock_above_heads:
  assumes a: "append L data options = Inr (e, L')"
  shows "time (clock e)
           = number_plus_one (max (time (clock_log L)) (foldl maxClockTimeReducer 0 (heads L)))
       \<and> id_clock (clock e) = id_clock (clock_log L)
       \<and> set (next e) = hash ` set (heads L)
       \<and> (\<forall>p \<in> set (heads L). time (clock p) \<le> time (clock e))
       \<and> (max (time (clock_log L)) (foldl maxClockTimeReducer 0 (heads L)) < 2 ^ 53 \<longrightarrow>
            time (clock e) = max (time (clock_log L)) (foldl maxClockTimeReducer 0 (heads L)) + 1
            \<and> (\<forall>p \<in> set (heads L). time (clock p) < time (clock e)
                                     \<and> 0 < Clock_compare (clock e) (clock p)))"
proof -
  note A = append_Inr [OF a]
  define m where "m = max (time (clock_log L)) (foldl maxClockTimeReducer 0 (heads L))"
  have t: "time (clock e) = number_plus_one m"
    and i: "id_clock (clock e) = id_clock (clock_log L)"
    using A(1) by (simp_all add: m_def)
  have n: "set (next e) = hash ` set (heads L)"
    unfolding A(2) by (simp add: keys_foldl_unique)
  have pm: "time (clock p) \<le> m" if "p \<in> set (heads L)" for p
    using foldl_maxClock_ge [OF that, of 0] by (simp add: m_def)
  have le: "time (clock p) \<le> time (clock e)" if "p \<in> set (heads L)" for p
    using pm [OF that] number_plus_one_ge [of m] t by simp
  have lt: "time (clock p) < time (clock e) \<and> 0 < Clock_compare (clock e) (clock p)"
    if "p \<in> set (heads L)" and "m < 2 ^ 53" for p
  proof -
    from pm [OF that(1)] number_plus_one_exact [OF that(2)] t
    have "time (clock p) < time (clock e)" by simp
    then show ?thesis by (simp add: Clock_compare_def Let_def)
  qed
  have ex: "time (clock e) = m + 1" if "m < 2 ^ 53"
    using number_plus_one_exact [OF that] t by simp
  from t i n le lt ex show ?thesis unfolding m_def by simp
qed

theorem append_clock_above_heads_witness:
  "max (time (clock_log A1)) (foldl maxClockTimeReducer 0 (heads A1)) = 1
   \<and> time (clock (fst (projr (append A1 ''a2'' ao)))) = 2
   \<and> id_clock (clock (fst (projr (append A1 ''a2'' ao)))) = id_clock (clock_log A1)
   \<and> set (next (fst (projr (append A1 ''a2'' ao)))) = hash ` set (heads A1)"
proof -
  have m: "max (time (clock_log A1)) (foldl maxClockTimeReducer 0 (heads A1)) = 1"
    by code_simp
  have a: "append A1 ''a2'' ao
      = Inr (fst (projr (append A1 ''a2'' ao)), snd (projr (append A1 ''a2'' ao)))"
    using A1_append by simp
  from append_clock_above_heads [OF a] m show ?thesis by simp
qed

text \<open>
  C3 does not hold of the code: \<open>cutLog\<close> rebuilds the entry index, the heads index and
  the length and leaves the nexts index as it was, and \<open>join\<close> refuses as a head whatever
  the nexts index knows. \<open>A3\<close> holds a1, a2 and a3 in a chain; cut to its last entry it
  holds a3 alone, as the log \<open>Bc\<close> that is constructed from a3 does, but its nexts index
  still names a1 and a2. Joined with \<open>A1\<close>, which holds a1, both hold a3 and a1, and no
  entry has a1 in its \<open>next\<close>: the heads of \<open>Bc\<close> joined with \<open>A1\<close> are a3 and a1, the heads
  of the cut log joined with \<open>A1\<close> are a3 alone.
\<close>

theorem heads_not_exact_after_cut_and_join:
  "view A3 = ([''h-a1'', ''h-a2'', ''h-a3''], [''h-a3''],
              [(''h-a1'', ''h-a2''), (''h-a2'', ''h-a3'')], 3, 3)
   \<and> view A1 = ([''h-a1''], [''h-a1''], [], 1, 1)
   \<and> view (cutLog A3 1) = ([''h-a3''], [''h-a3''],
              [(''h-a1'', ''h-a2''), (''h-a2'', ''h-a3'')], 1, 3)
   \<and> view Bc = ([''h-a3''], [''h-a3''], [(''h-a2'', ''h-a3'')], 1, 3)
   \<and> \<not> isl (join Bc A1 (- 1))
   \<and> nexts_view (jn Bc A1) = [(''h-a3'', [''h-a2'']), (''h-a1'', [])]
   \<and> set (map fst (headsIndex (jn Bc A1))) = {''h-a3'', ''h-a1''}
   \<and> heads_exact (jn Bc A1)
   \<and> \<not> isl (join (cutLog A3 1) A1 (- 1))
   \<and> nexts_view (jn (cutLog A3 1) A1) = [(''h-a3'', [''h-a2'']), (''h-a1'', [])]
   \<and> map fst (headsIndex (jn (cutLog A3 1) A1)) = [''h-a3'']
   \<and> \<not> heads_exact (jn (cutLog A3 1) A1)"
  by code_simp

text \<open>
  Where \<open>cutLog\<close> is not used the heads index is exact: in every log that is built from
  the constructor without entries, heads and recycle limit by \<open>append\<close> and by \<open>join\<close>
  without a size, the entries being stored under their hashes in one content-addressed
  store, the heads index holds exactly the entries of the log whose hash is in the \<open>next\<close>
  of no other entry of the log.
\<close>

theorem built_heads_exact:
  assumes "built S L"
  shows "heads_exact L"
proof -
  from built_ok [OF assms] have "log_ok S L" ..
  then show ?thesis by (rule ok_heads_exact)
qed

theorem built_heads_exact_witness:
  "built S0 (jn A3 B2) \<and> heads_exact (jn A3 B2)"
  using built_heads_exact [OF jn_built [OF A3_built B2_built]] jn_built [OF A3_built B2_built]
  by simp

text \<open>
  C1, as stated, fails: \<open>difference\<close> stops at an entry that the receiving log has, so a
  log that holds an entry without its ancestors hides them. \<open>A3\<close> holds the chain a1, a2,
  a3, and \<open>Bc\<close> is constructed from the entry a3 alone; both have the log id X. Joining
  \<open>A3\<close> and then \<open>Bc\<close> into an empty log gives three entries; joining \<open>Bc\<close> and then \<open>A3\<close>
  gives a3 alone.
\<close>

theorem join_order_matters_with_partial_log:
  "id_log A3 = id_log (newLog [1]) \<and> id_log Bc = id_log (newLog [1])
   \<and> view A3 = ([''h-a1'', ''h-a2'', ''h-a3''], [''h-a3''],
                 [(''h-a1'', ''h-a2''), (''h-a2'', ''h-a3'')], 3, 3)
   \<and> view Bc = ([''h-a3''], [''h-a3''], [(''h-a2'', ''h-a3'')], 1, 3)
   \<and> \<not> isl (join (newLog [1]) A3 (- 1)) \<and> \<not> isl (join (jn (newLog [1]) A3) Bc (- 1))
   \<and> \<not> isl (join (newLog [1]) Bc (- 1)) \<and> \<not> isl (join (jn (newLog [1]) Bc) A3 (- 1))
   \<and> view (jn (jn (newLog [1]) A3) Bc)
        = ([''h-a3'', ''h-a2'', ''h-a1''], [''h-a3''],
           [(''h-a2'', ''h-a3''), (''h-a1'', ''h-a2'')], 3, 3)
   \<and> view (jn (jn (newLog [1]) Bc) A3)
        = ([''h-a3''], [''h-a3''], [(''h-a2'', ''h-a3'')], 1, 3)"
  by code_simp

text \<open>
  C1, amended. Let \<open>L\<close>, \<open>A\<close> and \<open>B\<close> have the same log id and be built from the constructor
  without entries, heads and recycle limit by \<open>append\<close> and by \<open>join\<close> without a size over
  one content-addressed store, and let the joins succeed. Then joining \<open>A\<close> and then \<open>B\<close>
  into \<open>L\<close> and joining \<open>B\<close> and then \<open>A\<close> into \<open>L\<close> give the same entries, the same heads
  index, the same length and the same clock; and joining \<open>A\<close> once more succeeds and
  changes none of them.
\<close>

theorem join_commutes_on_built:
  assumes bL: "built S L" and bA: "built S A" and bB: "built S B"
    and idA: "id_log A = id_log L" and idB: "id_log B = id_log L"
    and jA: "join L A (- 1) = Inr LA" and jAB: "join LA B (- 1) = Inr LAB"
    and jB: "join L B (- 1) = Inr LB" and jBA: "join LB A (- 1) = Inr LBA"
  shows "set (entryIndex LAB) = set (entryIndex LBA)
       \<and> set (headsIndex LAB) = set (headsIndex LBA)
       \<and> length_log LAB = length_log LBA
       \<and> clock_log LAB = clock_log LBA
       \<and> (\<exists>LAA. join LA A (- 1) = Inr LAA
             \<and> entryIndex LAA = entryIndex LA
             \<and> set (headsIndex LAA) = set (headsIndex LA)
             \<and> length_log LAA = length_log LA
             \<and> clock_log LAA = clock_log LA)"
proof -
  have okL: "log_ok S L" and okA: "log_ok S A" and okB: "log_ok S B"
    using built_ok [OF bL] built_ok [OF bA] built_ok [OF bB] by simp_all
  note JA = join_ok [OF okL okA idA [symmetric] jA]
  have idLA: "id_log LA = id_log B" using JA(4) idB by simp
  note JAB = join_ok [OF JA(1) okB idLA jAB]
  note JB = join_ok [OF okL okB idB [symmetric] jB]
  have idLB: "id_log LB = id_log A" using JB(4) idA by simp
  note JBA = join_ok [OF JB(1) okA idLB jBA]
  have ents: "set (entryIndex LAB) = set (entryIndex LBA)"
    unfolding JAB(3) JBA(3) JA(3) JB(3) by auto
  note det = heads_determined [OF JAB(1) JBA(1) ents]
  have mA: "headsMax LA \<le> headsMax LAB"
    using headsMax_mono [OF JA(1) JAB(1)] JAB(3) by auto
  have mB: "headsMax LB \<le> headsMax LBA"
    using headsMax_mono [OF JB(1) JBA(1)] JBA(3) by auto
  have clk: "clock_log LAB = clock_log LBA"
    unfolding JAB(5) JBA(5) JA(5) JB(5) headsMax_def [symmetric]
    using mA mB det(3) by simp
  have sub: "set (entryIndex A) \<subseteq> set (entryIndex LA)" unfolding JA(3) by auto
  have idAA: "id_log A = id_log LA" using JA(4) idA by simp
  from join_again [OF JA(1) okA idAA sub]
  obtain LAA where jAA: "join LA A (- 1) = Inr LAA" ..
  note JAA = join_ok [OF JA(1) okA idAA [symmetric] jAA]
  have entsAA: "entryIndex LAA = entryIndex LA"
    unfolding JAA(2) difference_Nil [OF JA(1) okA idAA sub] by simp
  then have "set (entryIndex LAA) = set (entryIndex LA)" by simp
  note detAA = heads_determined [OF JAA(1) JA(1) this]
  have "headsMax LA \<le> time (clock_log LA)"
    unfolding JA(5) headsMax_def by simp
  then have clkAA: "clock_log LAA = clock_log LA"
    unfolding JAA(5) headsMax_def [symmetric] detAA(3) by (simp add: max_absorb1)
  show ?thesis
    using ents det(1,2) clk jAA entsAA detAA(1,2) clkAA by simp
qed

theorem join_commutes_on_built_witness:
  "set (entryIndex (jn (jn A1 A2) B2)) = set (entryIndex (jn (jn A1 B2) A2))
   \<and> set (headsIndex (jn (jn A1 A2) B2)) = set (headsIndex (jn (jn A1 B2) A2))
   \<and> length_log (jn (jn A1 A2) B2) = length_log (jn (jn A1 B2) A2)
   \<and> clock_log (jn (jn A1 A2) B2) = clock_log (jn (jn A1 B2) A2)
   \<and> (\<exists>LAA. join (jn A1 A2) A2 (- 1) = Inr LAA
         \<and> entryIndex LAA = entryIndex (jn A1 A2)
         \<and> set (headsIndex LAA) = set (headsIndex (jn A1 A2))
         \<and> length_log LAA = length_log (jn A1 A2)
         \<and> clock_log LAA = clock_log (jn A1 A2))"
  using join_commutes_on_built [OF A1_built A2_built B2_built A1_A2_ids
          jn_Inr [OF A1_A2_B2_joins(1)] jn_Inr [OF A1_A2_B2_joins(2)]
          jn_Inr [OF A1_A2_B2_joins(3)] jn_Inr [OF A1_A2_B2_joins(4)]] .

end
